theory Spec2Isabelle
  imports Main
begin

section \<open>Data model\<close>

text \<open>
  The rules engine of \<^verbatim>\<open>src/src/game.cpp\<close> and the move-selection policies of
  \<^verbatim>\<open>src/src/players.cpp\<close>. Coordinates are C++ \<^verbatim>\<open>int\<close>s (row 0 is Black's home
  rank, row 7 is White's); they stay far from the limits of the machine type, so they
  are modelled as \<^typ>\<open>int\<close>.
\<close>

datatype PieceColor = White | Black

datatype PieceType = Pawn | Knight | Bishop | Rook | Queen | King

datatype GameState =
  Ongoing | CheckForWhite | CheckForBlack | CheckmateForWhite | CheckmateForBlack
  | Stalemate | ResignedWhite | ResignedBlack

text \<open>\<^verbatim>\<open>Move{oldRow, oldCol, newRow, newCol, color}\<close>, an aggregate of \<^verbatim>\<open>move.hpp\<close>.\<close>

datatype Move = Move (oldRow: int) (oldCol: int) (newRow: int) (newCol: int) (color: PieceColor)

text \<open>
  Modelled from the spec: the classes \<^verbatim>\<open>Piece\<close> and \<^verbatim>\<open>Board\<close> (\<^verbatim>\<open>pieces.hpp\<close>,
  \<^verbatim>\<open>board.hpp\<close>) are not among the sources. A piece is its colour, its dynamic type (the
  target of the \<^verbatim>\<open>dynamic_pointer_cast\<close>s) and its move counter (it starts at 0 and is only
  incremented: a \<^typ>\<open>nat\<close>); its position is the cell that holds it. A board is the 8x8 grid of optional pieces, read with
  \<^verbatim>\<open>getPieceAt\<close>; copying a board copies the pieces (the spec's deep clone), which is
  what a value of type \<open>Board\<close> gives.
\<close>

datatype Piece = Piece (getColor: PieceColor) (kind: PieceType) (getMoveCount: nat)

type_synonym Board = "int \<times> int \<Rightarrow> Piece option"

definition getPieceAt :: "Board \<Rightarrow> int \<Rightarrow> int \<Rightarrow> Piece option" where
  "getPieceAt board row col = board (row, col)"

text \<open>
  \<^verbatim>\<open>Piece::isMoveValid\<close> (the movement shape a piece type accepts, obstruction ignored) is
  virtual and defined outside the sources: every function below takes it as the
  parameter \<open>shape\<close>.
\<close>

type_synonym Shape = "Piece \<Rightarrow> Move \<Rightarrow> bool"

text \<open>C++ integer division truncates towards zero.\<close>

definition cdiv :: "int \<Rightarrow> int \<Rightarrow> int" where
  "cdiv a b = sgn a * sgn b * (\<bar>a\<bar> div \<bar>b\<bar>)"

definition opponent :: "PieceColor \<Rightarrow> PieceColor" where
  "opponent c = (if c = White then Black else White)"

section \<open>Move legality: \<^verbatim>\<open>ChessGame::isValidMove\<close>\<close>

definition withinBoard :: "int \<Rightarrow> int \<Rightarrow> bool" where
  "withinBoard row col = (row \<ge> 0 \<and> col \<ge> 0 \<and> row < 8 \<and> col < 8)"

definition rowStep :: "Move \<Rightarrow> int \<Rightarrow> int" where
  "rowStep move dy = (if dy = 0 then 0 else cdiv (newRow move - oldRow move) dy)"

definition colStep :: "Move \<Rightarrow> int \<Rightarrow> int" where
  "colStep move dx = (if dx = 0 then 0 else cdiv (newCol move - oldCol move) dx)"

text \<open>
  The \<^verbatim>\<open>while\<close> loop of lines 118-131. The result is \<open>Some (True, _)\<close> when the loop runs
  to its end, \<open>Some (False, _)\<close> when it returns false at an occupied cell, and \<open>None\<close>
  when it has no result: a loop that never reaches the destination leaves the grid, where
  \<^verbatim>\<open>getPieceAt\<close> has no cell to read, and runs on. The last argument is a ghost trace:
  the values of \<open>(i, j)\<close> at the iterations of the loop body, in order.
\<close>

partial_function (option) obstructionScan ::
  "Board \<Rightarrow> Move \<Rightarrow> int \<Rightarrow> int \<Rightarrow> int \<Rightarrow> int \<Rightarrow> (int \<times> int) list
     \<Rightarrow> (bool \<times> (int \<times> int) list) option" where
  "obstructionScan board move dy dx i j trace =
     (if i \<noteq> newRow move \<or> j \<noteq> newCol move then
        (if i = oldRow move \<and> j = oldCol move then
           obstructionScan board move dy dx (i + rowStep move dy) (j + colStep move dx)
             (trace @ [(i, j)])
         else if \<not> withinBoard i j then None
         else if getPieceAt board i j \<noteq> None then Some (False, trace @ [(i, j)])
         else obstructionScan board move dy dx (i + rowStep move dy) (j + colStep move dx)
             (trace @ [(i, j)]))
      else Some (True, trace))"

declare obstructionScan.simps [code]

definition isSliding :: "Piece \<Rightarrow> bool" where
  "isSliding piece =
     (kind piece = Bishop \<or> kind piece = Queen \<or> kind piece = Rook \<or> kind piece = Pawn)"

text \<open>Lines 111-137: \<open>Some False\<close> is the source's \<^verbatim>\<open>return false\<close>, \<open>Some True\<close> falls through.\<close>

definition slidingCheck :: "Board \<Rightarrow> Move \<Rightarrow> Piece \<Rightarrow> int \<Rightarrow> int \<Rightarrow> bool option" where
  "slidingCheck board move piece dy dx =
     (if isSliding piece then
        (case obstructionScan board move dy dx (oldRow move) (oldCol move) [] of
           None \<Rightarrow> None
         | Some (clear, _) \<Rightarrow>
             if \<not> clear then Some False
             else if kind piece = Pawn \<and> dx = 0
                     \<and> getPieceAt board (newRow move) (newCol move) \<noteq> None then Some False
             else Some True)
      else Some True)"

datatype Flow = Return bool | Continue

text \<open>\<^verbatim>\<open>std::dynamic_pointer_cast<T>(piece)\<close> as a condition: false on a null pointer.\<close>

definition isA :: "PieceType \<Rightarrow> Piece option \<Rightarrow> bool" where
  "isA t piece = (case piece of None \<Rightarrow> False | Some p \<Rightarrow> kind p = t)"

text \<open>Lines 139-169, the pawn rules: double step and diagonal move (capture or en passant).\<close>

definition pawnCheck ::
  "Board \<Rightarrow> Move list \<Rightarrow> Move \<Rightarrow> Piece \<Rightarrow> Piece option \<Rightarrow> int \<Rightarrow> int \<Rightarrow> Flow" where
  "pawnCheck board moves move piece nextPiece dy dx =
     (if kind piece = Pawn then
        (if dy > 1 \<and> getMoveCount piece > 0 then Return False
         else if dy > 0 \<and> dx > 0 \<and> nextPiece = None then
           (let neighborCol = oldCol move + cdiv (newCol move - oldCol move) dx in
            if withinBoard (oldRow move) neighborCol
               \<and> isA Pawn (getPieceAt board (oldRow move) neighborCol)
               \<and> moves \<noteq> []
               \<and> newRow (last moves) = oldRow move
               \<and> newCol (last moves) = neighborCol
               \<and> \<bar>newRow (last moves) - oldRow (last moves)\<bar> = 2
            then Return True
            else Return False)
         else Continue)
      else Continue)"

text \<open>
  The \<^verbatim>\<open>for\<close> loop of lines 190-196 over the columns from the king towards the rook.
  \<open>rookCol\<close> is \<^verbatim>\<open>nextPiece->getCol()\<close>, the column of the corner cell the rook was read
  from.
\<close>

partial_function (option) castleScan ::
  "Board \<Rightarrow> Move \<Rightarrow> int \<Rightarrow> int \<Rightarrow> int \<Rightarrow> bool option" where
  "castleScan board move rookCol dx j =
     (if j \<noteq> rookCol then
        (if j \<noteq> oldCol move \<and> j \<noteq> rookCol \<and> getPieceAt board (oldRow move) j \<noteq> None
         then Some False
         else castleScan board move rookCol dx (j + cdiv (newCol move - oldCol move) dx))
      else Some True)"

declare castleScan.simps [code]

definition rookCorner :: "PieceColor \<Rightarrow> bool \<Rightarrow> int \<times> int" where
  "rookCorner turn direction =
     (if turn = White then (if direction then (7, 0) else (7, 7))
      else (if direction then (0, 0) else (0, 7)))"

text \<open>Lines 171-197, castling: the result is the value \<^verbatim>\<open>isValidMove\<close> returns.\<close>

definition castlingCheck ::
  "PieceColor \<Rightarrow> Board \<Rightarrow> Move \<Rightarrow> Piece \<Rightarrow> int \<Rightarrow> bool option" where
  "castlingCheck turn board move piece dx =
     (if kind piece = King \<and> dx = 2 then
        (let direction = (newCol move - oldCol move < 0);
             corner = rookCorner turn direction
         in case getPieceAt board (fst corner) (snd corner) of
              None \<Rightarrow> Some False
            | Some rook \<Rightarrow>
                if kind rook \<noteq> Rook then Some False
                else if getMoveCount piece > 0 \<or> getMoveCount rook > 0 then Some False
                else castleScan board move (snd corner) dx (oldCol move))
      else Some True)"

definition isValidMove ::
  "Shape \<Rightarrow> Move list \<Rightarrow> PieceColor \<Rightarrow> Move \<Rightarrow> Board \<Rightarrow> bool option" where
  "isValidMove shape moves turn move board =
     (if \<not> withinBoard (oldRow move) (oldCol move)
         \<or> \<not> withinBoard (newRow move) (newCol move) then Some False
      else
        (case getPieceAt board (oldRow move) (oldCol move) of
           None \<Rightarrow> Some False
         | Some piece \<Rightarrow>
             if \<not> shape piece move \<or> getColor piece \<noteq> turn then Some False
             else
               (let nextPiece = getPieceAt board (newRow move) (newCol move) in
                if (case nextPiece of None \<Rightarrow> False
                    | Some np \<Rightarrow> getColor piece = getColor np) then Some False
                else
                  (let dy = \<bar>newRow move - oldRow move\<bar>;
                       dx = \<bar>newCol move - oldCol move\<bar>
                   in case slidingCheck board move piece dy dx of
                        None \<Rightarrow> None
                      | Some ok \<Rightarrow>
                          if \<not> ok then Some False
                          else
                            (case pawnCheck board moves move piece nextPiece dy dx of
                               Return r \<Rightarrow> Some r
                             | Continue \<Rightarrow> castlingCheck turn board move piece dx)))))"

section \<open>Pseudo-legal moves and check\<close>

text \<open>The four nested loops of \<^verbatim>\<open>generateLegalMovesInternal\<close>, in their order.\<close>

definition allMoves :: "PieceColor \<Rightarrow> Move list" where
  "allMoves c = [Move i j k l c. i \<leftarrow> [0..7], j \<leftarrow> [0..7], k \<leftarrow> [0..7], l \<leftarrow> [0..7]]"

fun collectValid :: "(Move \<Rightarrow> bool option) \<Rightarrow> Move list \<Rightarrow> Move list option" where
  "collectValid valid [] = Some []"
| "collectValid valid (m # ms) =
     (case valid m of
        None \<Rightarrow> None
      | Some ok \<Rightarrow>
          (case collectValid valid ms of
             None \<Rightarrow> None
           | Some rest \<Rightarrow> Some (if ok then m # rest else rest)))"

definition generateLegalMovesInternal ::
  "Shape \<Rightarrow> Move list \<Rightarrow> PieceColor \<Rightarrow> Board \<Rightarrow> Move list option" where
  "generateLegalMovesInternal shape moves c board =
     collectValid (\<lambda>move. isValidMove shape moves c move board) (allMoves c)"

definition cells :: "(int \<times> int) list" where
  "cells = [(i, j). i \<leftarrow> [0..7], j \<leftarrow> [0..7]]"

fun findKingIn :: "PieceColor \<Rightarrow> Board \<Rightarrow> (int \<times> int) list \<Rightarrow> int \<times> int" where
  "findKingIn c board [] = (-1, -1)"
| "findKingIn c board ((i, j) # rest) =
     (case getPieceAt board i j of
        None \<Rightarrow> findKingIn c board rest
      | Some piece \<Rightarrow>
          if kind piece = King \<and> getColor piece = c then (i, j)
          else findKingIn c board rest)"

definition findKing :: "PieceColor \<Rightarrow> Board \<Rightarrow> int \<times> int" where
  "findKing c board = findKingIn c board cells"

definition isCheckInternal :: "Move \<Rightarrow> int \<times> int \<Rightarrow> bool" where
  "isCheckInternal move king = (newRow move = fst king \<and> newCol move = snd king)"

fun anyCheck :: "Move list \<Rightarrow> int \<times> int \<Rightarrow> bool" where
  "anyCheck [] king = False"
| "anyCheck (m # ms) king = (if isCheckInternal m king then True else anyCheck ms king)"

definition isKingInCheckInternal ::
  "Shape \<Rightarrow> Move list \<Rightarrow> PieceColor \<Rightarrow> Board \<Rightarrow> bool option" where
  "isKingInCheckInternal shape moves kingColor board =
     (case generateLegalMovesInternal shape moves (opponent kingColor) board of
        None \<Rightarrow> None
      | Some opponentMoves \<Rightarrow> Some (anyCheck opponentMoves (findKing kingColor board)))"

section \<open>The game and move execution\<close>

text \<open>
  The members of \<^verbatim>\<open>ChessGame\<close> that the rules read and write. The two player handles
  are left out: no function below reads them.
\<close>

record ChessGame =
  board :: Board
  turn :: PieceColor
  gameState :: GameState
  moveList :: "Move list"

text \<open>
  Modelled from the spec: \<^verbatim>\<open>Board::move\<close> and \<^verbatim>\<open>Board::enPassantMove\<close> are not among
  the sources. An ordinary move relocates the piece, discards a captured piece and
  increments the piece's move counter; en passant also discards the passed pawn, which
  stands beside the origin in the destination's column.
\<close>

definition Board_move :: "Board \<Rightarrow> Move \<Rightarrow> Board" where
  "Board_move b m =
     (case getPieceAt b (oldRow m) (oldCol m) of
        None \<Rightarrow> b
      | Some p \<Rightarrow>
          b((oldRow m, oldCol m) := None,
            (newRow m, newCol m) := Some (Piece (getColor p) (kind p) (Suc (getMoveCount p)))))"

definition Board_enPassantMove :: "Board \<Rightarrow> Move \<Rightarrow> Board" where
  "Board_enPassantMove b m = Board_move (b((oldRow m, newCol m) := None)) m"

text \<open>
  \<^verbatim>\<open>Move{a, b, c, d}\<close> leaves the colour member to its default; no function of the model
  reads the colour of such a move.
\<close>

definition defaultColor :: PieceColor where
  "defaultColor = White"

text \<open>
  The three simulated positions of a castling move (lines 274-297 of
  \<^verbatim>\<open>moveInternal\<close>, and the same statements at lines 383-405 of
  \<^verbatim>\<open>generateLegalMoves\<close>): the copy of the board as it is, after the king's first
  step, and after its second. \<open>Some True\<close> when one of them has the king in check.
\<close>

definition castlingIntermediate :: "Move \<Rightarrow> int \<Rightarrow> Move" where
  "castlingIntermediate move dx =
     Move (oldRow move) (oldCol move) (newRow move)
       (oldCol move + cdiv (newCol move - oldCol move) dx) defaultColor"

definition castlingFinal :: "Move \<Rightarrow> int \<Rightarrow> Move" where
  "castlingFinal move dx =
     (let intermediate = castlingIntermediate move dx in
      Move (newRow intermediate) (newCol intermediate) (newRow intermediate)
        (newCol intermediate + cdiv (newCol move - oldCol move) dx) defaultColor)"

definition castlingInCheck ::
  "Shape \<Rightarrow> Move list \<Rightarrow> PieceColor \<Rightarrow> Board \<Rightarrow> Move \<Rightarrow> int \<Rightarrow> bool option" where
  "castlingInCheck shape moves c b move dx =
     (case isKingInCheckInternal shape moves c b of
        None \<Rightarrow> None
      | Some c0 \<Rightarrow>
          if c0 then Some True
          else
            (let b1 = Board_move b (castlingIntermediate move dx) in
             case isKingInCheckInternal shape moves c b1 of
               None \<Rightarrow> None
             | Some c1 \<Rightarrow>
                 if c1 then Some True
                 else isKingInCheckInternal shape moves c
                        (Board_move b1 (castlingFinal move dx))))"

text \<open>Lines 326-329: the state goes back to \<open>Ongoing\<close> when the mover was in check.\<close>

definition resetCheck :: "ChessGame \<Rightarrow> ChessGame" where
  "resetCheck g =
     (if gameState g = (if turn g = White then CheckForBlack else CheckForWhite)
      then g\<lparr>gameState := Ongoing\<rparr> else g)"

text \<open>
  \<^verbatim>\<open>ChessGame::moveInternal\<close>: the returned flag and the game after the call. Every
  \<^verbatim>\<open>return false\<close> of the source is a branch that returns the game it was given.
\<close>

definition moveInternal :: "Shape \<Rightarrow> ChessGame \<Rightarrow> Move \<Rightarrow> (bool \<times> ChessGame) option" where
  "moveInternal shape g move =
     (case isValidMove shape (moveList g) (turn g) move (board g) of
        None \<Rightarrow> None
      | Some valid \<Rightarrow>
          if \<not> valid then Some (False, g)
          else
            (let piece = getPieceAt (board g) (oldRow move) (oldCol move);
                 nextPiece = getPieceAt (board g) (newRow move) (newCol move);
                 dy = \<bar>newRow move - oldRow move\<bar>;
                 dx = \<bar>newCol move - oldCol move\<bar>;
                 preliminaryBoard = board g
             in if isA Pawn piece \<and> dy > 0 \<and> dx > 0 \<and> nextPiece = None then
                  (case isKingInCheckInternal shape (moveList g) (turn g)
                          (Board_move preliminaryBoard move) of
                     None \<Rightarrow> None
                   | Some inCheck \<Rightarrow>
                       if inCheck then Some (False, g)
                       else Some (True, resetCheck
                              (g\<lparr>board := Board_enPassantMove (board g) move,
                                 moveList := moveList g @ [move]\<rparr>)))
                else if isA King piece \<and> dx = 2 then
                  (case castlingInCheck shape (moveList g) (turn g) preliminaryBoard move dx of
                     None \<Rightarrow> None
                   | Some inCheck \<Rightarrow>
                       if inCheck then Some (False, g)
                       else
                         (let direction = (newCol move - oldCol move < 0);
                              rook = rookCorner (turn g) direction;
                              rookMove = Move (fst rook) (snd rook) (fst rook)
                                (oldCol move + cdiv (newCol move - oldCol move) dx)
                                defaultColor
                          in Some (True, resetCheck
                               (g\<lparr>board := Board_move (Board_move (board g) move) rookMove,
                                  moveList := moveList g @ [move]\<rparr>))))
                else
                  (case isKingInCheckInternal shape (moveList g) (turn g)
                          (Board_move preliminaryBoard move) of
                     None \<Rightarrow> None
                   | Some inCheck \<Rightarrow>
                       if inCheck then Some (False, g)
                       else Some (True, resetCheck
                              (g\<lparr>board := Board_move (board g) move,
                                 moveList := moveList g @ [move]\<rparr>)))))"

text \<open>The loop of lines 38-47 of \<^verbatim>\<open>computeState\<close>: the value of \<^verbatim>\<open>outOfCheck\<close> after it.\<close>

fun outOfCheckLoop ::
  "Shape \<Rightarrow> Move list \<Rightarrow> PieceColor \<Rightarrow> Board \<Rightarrow> Move list \<Rightarrow> bool option" where
  "outOfCheckLoop shape moves c b [] = Some False"
| "outOfCheckLoop shape moves c b (m # ms) =
     (case isKingInCheckInternal shape moves c (Board_move b m) of
        None \<Rightarrow> None
      | Some inCheck \<Rightarrow>
          if \<not> inCheck then Some True else outOfCheckLoop shape moves c b ms)"

definition computeState :: "Shape \<Rightarrow> ChessGame \<Rightarrow> PieceColor \<Rightarrow> ChessGame option" where
  "computeState shape g c =
     (case isKingInCheckInternal shape (moveList g) c (board g) of
        None \<Rightarrow> None
      | Some inCheck \<Rightarrow>
          if inCheck then
            (case generateLegalMovesInternal shape (moveList g) c (board g) of
               None \<Rightarrow> None
             | Some opponentMoves \<Rightarrow>
                 (case outOfCheckLoop shape (moveList g) c (board g) opponentMoves of
                    None \<Rightarrow> None
                  | Some outOfCheck \<Rightarrow>
                      if \<not> outOfCheck
                      then Some (g\<lparr>gameState :=
                                   (if c = White then CheckmateForBlack else CheckmateForWhite)\<rparr>)
                      else Some (g\<lparr>gameState :=
                                   (if c = White then CheckForBlack else CheckForWhite)\<rparr>)))
          else Some g)"

text \<open>\<^verbatim>\<open>ChessGame::move\<close>: the turn is not changed here.\<close>

definition move :: "Shape \<Rightarrow> ChessGame \<Rightarrow> Move \<Rightarrow> (bool \<times> ChessGame) option" where
  "move shape g m =
     (case moveInternal shape g m of
        None \<Rightarrow> None
      | Some (ok, g1) \<Rightarrow>
          if ok then
            (case computeState shape g1 (opponent (turn g1)) of
               None \<Rightarrow> None
             | Some g2 \<Rightarrow> Some (True, g2))
          else Some (False, g1))"

text \<open>
  \<^verbatim>\<open>ChessGame::generateLegalMoves\<close>: the loop of lines 370-417 over the pseudo-legal
  moves, where \<^verbatim>\<open>continue\<close> drops a move and the last statement keeps it.
\<close>

fun nonCheckLoop :: "Shape \<Rightarrow> ChessGame \<Rightarrow> Move list \<Rightarrow> Move list option" where
  "nonCheckLoop shape g [] = Some []"
| "nonCheckLoop shape g (m # ms) =
     (let piece = getPieceAt (board g) (oldRow m) (oldCol m);
          dx = \<bar>newCol m - oldCol m\<bar>;
          preliminaryBoard = board g
      in case (if isA King piece \<and> dx = 2
               then castlingInCheck shape (moveList g) (turn g) preliminaryBoard m dx
               else isKingInCheckInternal shape (moveList g) (turn g)
                      (Board_move preliminaryBoard m)) of
           None \<Rightarrow> None
         | Some inCheck \<Rightarrow>
             (case nonCheckLoop shape g ms of
                None \<Rightarrow> None
              | Some rest \<Rightarrow> Some (if inCheck then rest else m # rest)))"

definition generateLegalMoves :: "Shape \<Rightarrow> ChessGame \<Rightarrow> Move list option" where
  "generateLegalMoves shape g =
     (case generateLegalMovesInternal shape (moveList g) (turn g) (board g) of
        None \<Rightarrow> None
      | Some legalMoves \<Rightarrow> nonCheckLoop shape g legalMoves)"

text \<open>
  The condition of the castling branch of \<^verbatim>\<open>moveInternal\<close> (line 273) and of
  \<^verbatim>\<open>generateLegalMoves\<close> (line 382): the origin holds a king and the move spans two
  columns.
\<close>

definition isCastling :: "Board \<Rightarrow> Move \<Rightarrow> bool" where
  "isCastling b m = (isA King (b (oldRow m, oldCol m)) \<and> \<bar>newCol m - oldCol m\<bar> = 2)"

text \<open>
  The body of the loop of \<^verbatim>\<open>generateLegalMoves\<close> as a predicate: a move is kept when
  none of the checks the body computes for it is true. For every move outside the
  castling branch, an en-passant capture included, the one board tested is the copy after
  \<^verbatim>\<open>Board::move\<close> (line 408).
\<close>

definition keptByLoop :: "Shape \<Rightarrow> ChessGame \<Rightarrow> Move \<Rightarrow> bool" where
  "keptByLoop shape g m =
     (if isCastling (board g) m then
        castlingInCheck shape (moveList g) (turn g) (board g) m 2 = Some False
      else
        isKingInCheckInternal shape (moveList g) (turn g) (Board_move (board g) m)
          = Some False)"

definition kingIsInCheck :: "Shape \<Rightarrow> ChessGame \<Rightarrow> PieceColor \<Rightarrow> bool option" where
  "kingIsInCheck shape g kingColor =
     isKingInCheckInternal shape (moveList g) kingColor (board g)"

text \<open>\<^verbatim>\<open>isCapture\<close>, \<^verbatim>\<open>isCheck\<close> and \<^verbatim>\<open>isMoveSafe\<close>, which the players call.\<close>

definition isCapture :: "ChessGame \<Rightarrow> Move \<Rightarrow> bool" where
  "isCapture g m = (getPieceAt (board g) (newRow m) (newCol m) \<noteq> None)"

definition isCheck :: "Shape \<Rightarrow> ChessGame \<Rightarrow> Move \<Rightarrow> bool option" where
  "isCheck shape g m =
     isKingInCheckInternal shape (moveList g) (opponent (color m)) (Board_move (board g) m)"

definition isCaptureTargetInternal :: "Move \<Rightarrow> int \<times> int \<Rightarrow> bool" where
  "isCaptureTargetInternal m target = (newRow m = fst target \<and> newCol m = snd target)"

fun noneTargets :: "Move list \<Rightarrow> int \<times> int \<Rightarrow> bool" where
  "noneTargets [] target = True"
| "noneTargets (m # ms) target =
     (if isCaptureTargetInternal m target then False else noneTargets ms target)"

definition isMoveSafe :: "Shape \<Rightarrow> ChessGame \<Rightarrow> Move \<Rightarrow> bool option" where
  "isMoveSafe shape g m =
     (case generateLegalMovesInternal shape (moveList g) (opponent (color m))
             (Board_move (board g) m) of
        None \<Rightarrow> None
      | Some opponentMoves \<Rightarrow> Some (noneTargets opponentMoves (newRow m, newCol m)))"

text \<open>
  Modelled from the spec: \<^verbatim>\<open>evaluateBoard\<close> looks the value of a piece up by
  \<^verbatim>\<open>Piece::getLetter\<close>, which is not among the sources; the values are the spec's
  material values by piece type.
\<close>

definition pieceValue :: "PieceType \<Rightarrow> int" where
  "pieceValue t =
     (case t of King \<Rightarrow> 10000 | Queen \<Rightarrow> 900 | Rook \<Rightarrow> 500 | Bishop \<Rightarrow> 330
      | Knight \<Rightarrow> 320 | Pawn \<Rightarrow> 100)"

definition evaluateBoard :: "ChessGame \<Rightarrow> PieceColor \<Rightarrow> int" where
  "evaluateBoard g c =
     foldl (\<lambda>materialScore (row, col).
              case getPieceAt (board g) row col of
                None \<Rightarrow> materialScore
              | Some piece \<Rightarrow>
                  if getColor piece = c then materialScore + pieceValue (kind piece)
                  else materialScore - pieceValue (kind piece))
       0 cells"

section \<open>The players of \<^verbatim>\<open>players.cpp\<close>\<close>

text \<open>
  \<^verbatim>\<open>legalMoves[rand() % legalMoves.size()]\<close>: \<open>r\<close> is the value of \<^verbatim>\<open>rand()\<close>. On an
  empty vector the remainder is a division by zero and the subscript is out of range;
  the model returns \<open>Inl EmptySelection\<close> there.
\<close>

datatype Failure = EmptySelection

definition pick :: "Move list \<Rightarrow> nat \<Rightarrow> Failure + Move" where
  "pick ms r = (if ms = [] then Inl EmptySelection else Inr (ms ! (r mod length ms)))"

definition Level1_getMove :: "Shape \<Rightarrow> ChessGame \<Rightarrow> nat \<Rightarrow> (Failure + Move) option" where
  "Level1_getMove shape g r =
     (case generateLegalMoves shape g of
        None \<Rightarrow> None
      | Some legalMoves \<Rightarrow> Some (pick legalMoves r))"

text \<open>The \<^verbatim>\<open>push_back\<close> loops of the players: the moves that satisfy a test, in order.\<close>

fun preferred :: "(Move \<Rightarrow> bool option) \<Rightarrow> Move list \<Rightarrow> Move list option" where
  "preferred test [] = Some []"
| "preferred test (m # ms) =
     (case test m of
        None \<Rightarrow> None
      | Some ok \<Rightarrow>
          (case preferred test ms of
             None \<Rightarrow> None
           | Some rest \<Rightarrow> Some (if ok then m # rest else rest)))"

definition Level2_getMove :: "Shape \<Rightarrow> ChessGame \<Rightarrow> nat \<Rightarrow> (Failure + Move) option" where
  "Level2_getMove shape g r =
     (case generateLegalMoves shape g of
        None \<Rightarrow> None
      | Some legalMoves \<Rightarrow>
          (case preferred (\<lambda>m. if isCapture g m then Some True else isCheck shape g m)
                  legalMoves of
             None \<Rightarrow> None
           | Some preferredMoves \<Rightarrow>
               if length preferredMoves > 0 then Some (pick preferredMoves r)
               else Some (pick legalMoves r)))"

definition Level3_getMove :: "Shape \<Rightarrow> ChessGame \<Rightarrow> nat \<Rightarrow> (Failure + Move) option" where
  "Level3_getMove shape g r =
     (case generateLegalMoves shape g of
        None \<Rightarrow> None
      | Some legalMoves \<Rightarrow>
          (case preferred (isCheck shape g) legalMoves of
             None \<Rightarrow> None
           | Some checks \<Rightarrow>
               if length checks > 0 then Some (pick checks r)
               else
                 (case preferred (\<lambda>m. Some (isCapture g m)) legalMoves of
                    None \<Rightarrow> None
                  | Some captures \<Rightarrow>
                      if length captures > 0 then Some (pick captures r)
                      else
                        (case preferred (isMoveSafe shape g) legalMoves of
                           None \<Rightarrow> None
                         | Some safe \<Rightarrow>
                             if length safe > 0 then Some (pick safe r)
                             else Some (pick legalMoves r)))))"

text \<open>
  \<^verbatim>\<open>Level4::minimax\<close>. \<open>c\<close> is the player's colour, \<open>maxDepth\<close> the constant
  \<^verbatim>\<open>MAX_DEPTH\<close> of \<^verbatim>\<open>players.hpp\<close> (not among the sources), and the member
  \<^verbatim>\<open>bestMove\<close> is passed in and returned with the value. The search starts at
  \<^verbatim>\<open>MAX_DEPTH\<close> and stops at depth 0, so the depth is a \<^typ>\<open>nat\<close>; the two loops
  receive \<open>d\<close>, the depth of their recursive calls, and the depth of their own node is
  \<open>Suc d\<close>. Each loop works on \<^verbatim>\<open>tempGame\<close>, a copy of the game it was given.
\<close>

function (sequential) minimax ::
    "Shape \<Rightarrow> PieceColor \<Rightarrow> nat \<Rightarrow> ChessGame \<Rightarrow> nat \<Rightarrow> int \<Rightarrow> int \<Rightarrow> bool \<Rightarrow> Move
       \<Rightarrow> (int \<times> Move) option"
  and maxLoop ::
    "Shape \<Rightarrow> PieceColor \<Rightarrow> nat \<Rightarrow> ChessGame \<Rightarrow> nat \<Rightarrow> Move list \<Rightarrow> int \<Rightarrow> int \<Rightarrow> int
       \<Rightarrow> Move \<Rightarrow> (int \<times> Move) option"
  and minLoop ::
    "Shape \<Rightarrow> PieceColor \<Rightarrow> nat \<Rightarrow> ChessGame \<Rightarrow> nat \<Rightarrow> Move list \<Rightarrow> int \<Rightarrow> int \<Rightarrow> int
       \<Rightarrow> Move \<Rightarrow> (int \<times> Move) option"
where
  "minimax shape c maxDepth g 0 alpha beta maximizingPlayer bestMove =
     Some (evaluateBoard g c, bestMove)"
| "minimax shape c maxDepth g (Suc d) alpha beta maximizingPlayer bestMove =
     (if gameState g \<noteq> Ongoing then Some (evaluateBoard g c, bestMove)
      else
        (case generateLegalMoves shape g of
           None \<Rightarrow> None
         | Some legalMoves \<Rightarrow>
             if maximizingPlayer
             then maxLoop shape c maxDepth g d legalMoves (- 1000000) alpha beta bestMove
             else minLoop shape c maxDepth g d legalMoves 1000000 alpha beta bestMove))"
| "maxLoop shape c maxDepth g d [] maxEval alpha beta bestMove = Some (maxEval, bestMove)"
| "maxLoop shape c maxDepth g d (m # ms) maxEval alpha beta bestMove =
     (case move shape g m of
        None \<Rightarrow> None
      | Some (_, tempGame) \<Rightarrow>
          (case minimax shape c maxDepth tempGame d alpha beta False bestMove of
             None \<Rightarrow> None
           | Some (eval, bestMove1) \<Rightarrow>
               (let maxEval' = (if eval > maxEval then eval else maxEval);
                    bestMove' = (if eval > maxEval \<and> Suc d = maxDepth then m else bestMove1);
                    alpha' = max alpha eval
                in if beta \<le> alpha' then Some (maxEval', bestMove')
                   else maxLoop shape c maxDepth g d ms maxEval' alpha' beta bestMove')))"
| "minLoop shape c maxDepth g d [] minEval alpha beta bestMove = Some (minEval, bestMove)"
| "minLoop shape c maxDepth g d (m # ms) minEval alpha beta bestMove =
     (case move shape g m of
        None \<Rightarrow> None
      | Some (_, newGame) \<Rightarrow>
          (case minimax shape c maxDepth newGame d alpha beta True bestMove of
             None \<Rightarrow> None
           | Some (eval, bestMove1) \<Rightarrow>
               (let minEval' = min minEval eval;
                    beta' = min beta eval
                in if beta' \<le> alpha then Some (minEval', bestMove1)
                   else minLoop shape c maxDepth g d ms minEval' alpha beta' bestMove1)))"

  by pat_completeness auto
termination
  by (relation "inv_image (less_than <*lex*> less_than)
        (\<lambda>x. case x of
           Inl (sh, c, md, g, d, a, b, mx, bm) \<Rightarrow> (d, 0)
         | Inr (Inl (sh, c, md, g, d, ms, e, a, b, bm)) \<Rightarrow> (d, Suc (length ms))
         | Inr (Inr (sh, c, md, g, d, ms, e, a, b, bm)) \<Rightarrow> (d, Suc (length ms)))")
     auto

definition Level4_getMove :: "Shape \<Rightarrow> PieceColor \<Rightarrow> nat \<Rightarrow> ChessGame \<Rightarrow> Move option" where
  "Level4_getMove shape c maxDepth g =
     map_option snd
       (minimax shape c maxDepth g maxDepth (- 1000000) 1000000 True (Move 0 0 0 0 defaultColor))"

section \<open>The search on a store of boards\<close>

text \<open>
  A \<^verbatim>\<open>ChessGame\<close> holds its board through a \<^verbatim>\<open>std::shared_ptr<Board>\<close>, and
  \<^verbatim>\<open>Level4::minimax\<close> receives the game by reference. To state what the search leaves
  untouched, the boards live in a store (an address is an index of the list) and a game
  object holds the address of its board. Modelled from the spec: the copy constructor of
  \<^verbatim>\<open>Board\<close> is not among the sources; the board it builds is a deep clone, here the same
  value at a new address.
\<close>

type_synonym Store = "Board list"

record GameObject =
  boardPtr :: nat
  turnOf :: PieceColor
  stateOf :: GameState
  movesOf :: "Move list"

text \<open>The game an object denotes in a store.\<close>

definition deref :: "Store \<Rightarrow> GameObject \<Rightarrow> ChessGame" where
  "deref st obj =
     \<lparr>board = st ! boardPtr obj, turn = turnOf obj, gameState = stateOf obj,
      moveList = movesOf obj\<rparr>"

text \<open>
  \<^verbatim>\<open>ChessGame::ChessGame(const ChessGame &other)\<close> (lines 11-14):
  \<^verbatim>\<open>std::make_shared<Board>(*other.board)\<close> allocates a board, the other members are
  copied.
\<close>

definition ChessGame_copy :: "Store \<Rightarrow> GameObject \<Rightarrow> Store \<times> GameObject" where
  "ChessGame_copy st other = (st @ [st ! boardPtr other], other\<lparr>boardPtr := length st\<rparr>)"

text \<open>
  \<^verbatim>\<open>ChessGame::move\<close> called on an object: it writes the object's members and, through
  the object's pointer, its board.
\<close>

definition move_at ::
  "Shape \<Rightarrow> Store \<Rightarrow> GameObject \<Rightarrow> Move \<Rightarrow> (bool \<times> Store \<times> GameObject) option" where
  "move_at shape st obj m =
     (case move shape (deref st obj) m of
        None \<Rightarrow> None
      | Some (ok, g') \<Rightarrow>
          Some (ok, st[boardPtr obj := board g'],
                obj\<lparr>turnOf := turn g', stateOf := gameState g', movesOf := moveList g'\<rparr>))"

text \<open>
  \<^verbatim>\<open>Level4::minimax\<close> with the store passed along: the result carries the store after
  the call. \<open>game\<close> is the object behind the reference parameter.
\<close>

function (sequential) minimax_st ::
    "Shape \<Rightarrow> PieceColor \<Rightarrow> nat \<Rightarrow> Store \<Rightarrow> GameObject \<Rightarrow> nat \<Rightarrow> int \<Rightarrow> int \<Rightarrow> bool
       \<Rightarrow> Move \<Rightarrow> (int \<times> Move \<times> Store) option"
  and maxLoop_st ::
    "Shape \<Rightarrow> PieceColor \<Rightarrow> nat \<Rightarrow> Store \<Rightarrow> GameObject \<Rightarrow> nat \<Rightarrow> Move list \<Rightarrow> int
       \<Rightarrow> int \<Rightarrow> int \<Rightarrow> Move \<Rightarrow> (int \<times> Move \<times> Store) option"
  and minLoop_st ::
    "Shape \<Rightarrow> PieceColor \<Rightarrow> nat \<Rightarrow> Store \<Rightarrow> GameObject \<Rightarrow> nat \<Rightarrow> Move list \<Rightarrow> int
       \<Rightarrow> int \<Rightarrow> int \<Rightarrow> Move \<Rightarrow> (int \<times> Move \<times> Store) option"
where
  "minimax_st shape c maxDepth st game 0 alpha beta maximizingPlayer bestMove =
     Some (evaluateBoard (deref st game) c, bestMove, st)"
| "minimax_st shape c maxDepth st game (Suc d) alpha beta maximizingPlayer bestMove =
     (if gameState (deref st game) \<noteq> Ongoing
      then Some (evaluateBoard (deref st game) c, bestMove, st)
      else
        (case generateLegalMoves shape (deref st game) of
           None \<Rightarrow> None
         | Some legalMoves \<Rightarrow>
             if maximizingPlayer
             then maxLoop_st shape c maxDepth st game d legalMoves (- 1000000) alpha beta
                    bestMove
             else minLoop_st shape c maxDepth st game d legalMoves 1000000 alpha beta
                    bestMove))"
| "maxLoop_st shape c maxDepth st game d [] maxEval alpha beta bestMove =
     Some (maxEval, bestMove, st)"
| "maxLoop_st shape c maxDepth st game d (m # ms) maxEval alpha beta bestMove =
     (case move_at shape (fst (ChessGame_copy st game)) (snd (ChessGame_copy st game)) m of
        None \<Rightarrow> None
      | Some (_, st2, tempGame) \<Rightarrow>
          (case minimax_st shape c maxDepth st2 tempGame d alpha beta False bestMove of
             None \<Rightarrow> None
           | Some (eval, bestMove1, st3) \<Rightarrow>
               (let maxEval' = (if eval > maxEval then eval else maxEval);
                    bestMove' = (if eval > maxEval \<and> Suc d = maxDepth then m else bestMove1);
                    alpha' = max alpha eval
                in if beta \<le> alpha' then Some (maxEval', bestMove', st3)
                   else maxLoop_st shape c maxDepth st3 game d ms maxEval' alpha' beta
                          bestMove')))"
| "minLoop_st shape c maxDepth st game d [] minEval alpha beta bestMove =
     Some (minEval, bestMove, st)"
| "minLoop_st shape c maxDepth st game d (m # ms) minEval alpha beta bestMove =
     (case move_at shape (fst (ChessGame_copy st game)) (snd (ChessGame_copy st game)) m of
        None \<Rightarrow> None
      | Some (_, st2, newGame) \<Rightarrow>
          (case minimax_st shape c maxDepth st2 newGame d alpha beta True bestMove of
             None \<Rightarrow> None
           | Some (eval, bestMove1, st3) \<Rightarrow>
               (let minEval' = min minEval eval;
                    beta' = min beta eval
                in if beta' \<le> alpha then Some (minEval', bestMove1, st3)
                   else minLoop_st shape c maxDepth st3 game d ms minEval' alpha beta'
                          bestMove1)))"
  by pat_completeness auto
termination
  by (relation "inv_image (less_than <*lex*> less_than)
        (\<lambda>x. case x of
           Inl (sh, c, md, st, g, d, a, b, mx, bm) \<Rightarrow> (d, 0)
         | Inr (Inl (sh, c, md, st, g, d, ms, e, a, b, bm)) \<Rightarrow> (d, Suc (length ms))
         | Inr (Inr (sh, c, md, st, g, d, ms, e, a, b, bm)) \<Rightarrow> (d, Suc (length ms)))")
     auto

definition Level4_getMove_st ::
  "Shape \<Rightarrow> PieceColor \<Rightarrow> nat \<Rightarrow> Store \<Rightarrow> GameObject \<Rightarrow> (Move \<times> Store) option" where
  "Level4_getMove_st shape c maxDepth st game =
     map_option snd
       (minimax_st shape c maxDepth st game maxDepth (- 1000000) 1000000 True
          (Move 0 0 0 0 defaultColor))"

text \<open>The value and the best move of a result of the search on a store.\<close>

definition dropStore :: "int \<times> Move \<times> Store \<Rightarrow> int \<times> Move" where
  "dropStore r = (fst r, fst (snd r))"

section \<open>Notions the properties are stated with\<close>

text \<open>A displacement along a row, a column or an exact diagonal.\<close>

definition aligned :: "Move \<Rightarrow> bool" where
  "aligned m =
     (\<bar>newRow m - oldRow m\<bar> = 0 \<or> \<bar>newCol m - oldCol m\<bar> = 0
      \<or> \<bar>newRow m - oldRow m\<bar> = \<bar>newCol m - oldCol m\<bar>)"

text \<open>The \<open>t\<close>-th cell on the way from the origin of a move towards its destination.\<close>

definition cellAt :: "Move \<Rightarrow> int \<Rightarrow> int \<times> int" where
  "cellAt m t =
     (oldRow m + t * sgn (newRow m - oldRow m), oldCol m + t * sgn (newCol m - oldCol m))"

definition distance :: "Move \<Rightarrow> int" where
  "distance m = max \<bar>newRow m - oldRow m\<bar> \<bar>newCol m - oldCol m\<bar>"

text \<open>The cells strictly between the origin and the destination, from the origin on.\<close>

definition between :: "Move \<Rightarrow> (int \<times> int) list" where
  "between m = map (cellAt m) [1..distance m - 1]"

text \<open>The cells of a list up to and including the first occupied one.\<close>

fun upToOccupied :: "Board \<Rightarrow> (int \<times> int) list \<Rightarrow> (int \<times> int) list" where
  "upToOccupied b [] = []"
| "upToOccupied b (c # cs) = (if b c \<noteq> None then [c] else c # upToOccupied b cs)"

text \<open>
  A shape that lets the sliding piece types (bishop, queen, rook, pawn) move along rows,
  columns and exact diagonals only, as the movement rules of chess do.
\<close>

definition alignedShape :: "Shape \<Rightarrow> bool" where
  "alignedShape shape = (\<forall>p m. isSliding p \<and> shape p m \<longrightarrow> aligned m)"

text \<open>The columns strictly between two columns of a row.\<close>

definition betweenCols :: "int \<Rightarrow> int \<Rightarrow> int list" where
  "betweenCols a b = [min a b + 1..max a b - 1]"

section \<open>A concrete instance for evaluation\<close>

text \<open>
  The movement shapes of chess, obstruction ignored, as an instance of the parameter
  \<open>shape\<close>: White moves towards row 0. The king's shape includes the two-column move
  of castling.
\<close>

definition chessShape :: Shape where
  "chessShape p m =
     (let dr = newRow m - oldRow m; dc = newCol m - oldCol m in
      case kind p of
        Pawn \<Rightarrow>
          (let fwd = (if getColor p = White then - dr else dr) in
           (fwd = 1 \<and> \<bar>dc\<bar> \<le> 1) \<or> (fwd = 2 \<and> dc = 0))
      | Knight \<Rightarrow> (\<bar>dr\<bar> = 1 \<and> \<bar>dc\<bar> = 2) \<or> (\<bar>dr\<bar> = 2 \<and> \<bar>dc\<bar> = 1)
      | Bishop \<Rightarrow> \<bar>dr\<bar> = \<bar>dc\<bar> \<and> dr \<noteq> 0
      | Rook \<Rightarrow> (dr = 0) \<noteq> (dc = 0)
      | Queen \<Rightarrow> (\<bar>dr\<bar> = \<bar>dc\<bar> \<and> dr \<noteq> 0) \<or> ((dr = 0) \<noteq> (dc = 0))
      | King \<Rightarrow>
          (\<bar>dr\<bar> \<le> 1 \<and> \<bar>dc\<bar> \<le> 1 \<and> (dr \<noteq> 0 \<or> dc \<noteq> 0)) \<or> (dr = 0 \<and> \<bar>dc\<bar> = 2))"

definition emptyBoard :: Board where
  "emptyBoard = (\<lambda>cell. None)"

text \<open>
  White king e1, white rook e2, black rook e8, black king a8: the white rook is pinned
  on the e-file.
\<close>

definition pinBoard :: Board where
  "pinBoard = emptyBoard
     ((7, 4) := Some (Piece White King 0), (6, 4) := Some (Piece White Rook 0),
      (0, 4) := Some (Piece Black Rook 0), (0, 0) := Some (Piece Black King 0))"

definition pinGame :: ChessGame where
  "pinGame = \<lparr>board = pinBoard, turn = White, gameState = Ongoing, moveList = []\<rparr>"

text \<open>The same position after the white rook has left the e-file for a2.\<close>

definition exposedGame :: ChessGame where
  "exposedGame =
     \<lparr>board = Board_move pinBoard (Move 6 4 6 0 White), turn = White,
      gameState = Ongoing, moveList = []\<rparr>"

text \<open>
  White pawns a4 and b4 after White's a2-a4, with White to move again (as in the search
  of \<^verbatim>\<open>Level4::minimax\<close>, which moves on a copy without changing the turn).
\<close>

definition ownPawnBoard :: Board where
  "ownPawnBoard = emptyBoard
     ((7, 4) := Some (Piece White King 0), (0, 4) := Some (Piece Black King 0),
      (4, 1) := Some (Piece White Pawn 2), (4, 0) := Some (Piece White Pawn 1))"

text \<open>White king h1 and rook a1, black king e8: the rook checks from e1.\<close>

definition rookBoard :: Board where
  "rookBoard = emptyBoard
     ((7, 7) := Some (Piece White King 1), (7, 0) := Some (Piece White Rook 0),
      (0, 4) := Some (Piece Black King 0))"

definition rookGame :: ChessGame where
  "rookGame = \<lparr>board = rookBoard, turn = White, gameState = Ongoing, moveList = []\<rparr>"




text \<open>
  White king a5 and pawn e5, black rook h5 and king h8, and the black pawn that has just
  advanced d7-d5 beside the white pawn: the two pawns are all that stands between the
  rook and the white king on the fifth rank.
\<close>

definition rankBoard :: Board where
  "rankBoard = emptyBoard
     ((3, 0) := Some (Piece White King 4), (3, 4) := Some (Piece White Pawn 2),
      (3, 3) := Some (Piece Black Pawn 1), (3, 7) := Some (Piece Black Rook 2),
      (0, 7) := Some (Piece Black King 1))"

definition rankGame :: ChessGame where
  "rankGame =
     \<lparr>board = rankBoard, turn = White, gameState = Ongoing,
      moveList = [Move 1 3 3 3 Black]\<rparr>"







text \<open>
  A stalemate: white king a8, black queen c7, black king b6, White to move and the state
  still \<open>Ongoing\<close> (\<^verbatim>\<open>move\<close> does not call \<^verbatim>\<open>computeStalemate\<close>).
\<close>

definition staleBoard :: Board where
  "staleBoard = emptyBoard
     ((0, 0) := Some (Piece White King 3), (1, 2) := Some (Piece Black Queen 4),
      (2, 1) := Some (Piece Black King 5))"

definition staleGame :: ChessGame where
  "staleGame = \<lparr>board = staleBoard, turn = White, gameState = Ongoing, moveList = []\<rparr>"

text \<open>The rook position as an object whose board is the only board of the store.\<close>

definition rookObject :: GameObject where
  "rookObject = \<lparr>boardPtr = 0, turnOf = White, stateOf = Ongoing, movesOf = []\<rparr>"

section \<open>Rejected moves change nothing\<close>

lemma moveInternal_rejected:
  "moveInternal shape g m = Some (False, g') \<Longrightarrow> g' = g"
  by (auto simp: moveInternal_def Let_def split: option.splits if_splits)

text \<open>
  C1. When \<^verbatim>\<open>ChessGame::move\<close> returns false, the game after the call (board, move
  history, game state and turn) is the game before the call, whatever made the move fail.
\<close>

theorem move_rejected_unchanged:
  "move shape g m = Some (False, g') \<Longrightarrow> g' = g"
  by (auto simp: move_def split: option.splits if_splits prod.splits
      dest: moveInternal_rejected)

section \<open>The obstruction scan and the castling scan\<close>

lemma cdiv_abs: "d \<noteq> 0 \<Longrightarrow> cdiv d \<bar>d\<bar> = sgn d"
  by (simp add: cdiv_def sgn_if)

lemma rowStep_sgn: "rowStep m \<bar>newRow m - oldRow m\<bar> = sgn (newRow m - oldRow m)"
  by (simp add: rowStep_def cdiv_abs)

lemma colStep_sgn: "colStep m \<bar>newCol m - oldCol m\<bar> = sgn (newCol m - oldCol m)"
  by (simp add: colStep_def cdiv_abs)

lemma cellAt_step:
  "(fst (cellAt m t) + sgn (newRow m - oldRow m), snd (cellAt m t) + sgn (newCol m - oldCol m))
   = cellAt m (t + 1)"
  by (simp add: cellAt_def algebra_simps)

lemma cellAt_new:
  assumes "aligned m" "0 \<le> t" "t \<le> distance m" "0 < distance m"
  shows "cellAt m t = (newRow m, newCol m) \<longleftrightarrow> t = distance m"
  using assms
  by (auto simp: cellAt_def aligned_def distance_def sgn_if algebra_simps split: if_splits)

lemma cellAt_old:
  assumes "0 < t" "0 < distance m"
  shows "cellAt m t \<noteq> (oldRow m, oldCol m)"
  using assms
  by (auto simp: cellAt_def distance_def sgn_if split: if_splits)

lemma cellAt_within:
  assumes "aligned m" "0 \<le> t" "t \<le> distance m"
    "withinBoard (oldRow m) (oldCol m)" "withinBoard (newRow m) (newCol m)"
  shows "withinBoard (fst (cellAt m t)) (snd (cellAt m t))"
  using assms
  by (auto simp: cellAt_def aligned_def distance_def withinBoard_def sgn_if algebra_simps split: if_splits)

lemma scan_from:
  assumes al: "aligned m"
    and wo: "withinBoard (oldRow m) (oldCol m)"
    and wn: "withinBoard (newRow m) (newCol m)"
    and t1: "1 \<le> t" and tn: "t \<le> distance m"
    and k: "k = nat (distance m - t)"
  shows "obstructionScan b m \<bar>newRow m - oldRow m\<bar> \<bar>newCol m - oldCol m\<bar>
           (fst (cellAt m t)) (snd (cellAt m t)) tr
         = Some ((\<forall>c \<in> set (map (cellAt m) [t..distance m - 1]). b c = None),
                 tr @ upToOccupied b (map (cellAt m) [t..distance m - 1]))"
  using t1 tn k
proof (induction k arbitrary: t tr)
  case 0
  then have t: "t = distance m" by simp
  have "0 < distance m" using 0 by simp
  with al t have "cellAt m t = (newRow m, newCol m)"
    using cellAt_new [of m t] by simp
  then have "fst (cellAt m t) = newRow m" "snd (cellAt m t) = newCol m" by simp_all
  then show ?case using t
    by (subst obstructionScan.simps) simp
next
  case (Suc k)
  then have lt: "t < distance m" and pos: "0 < distance m" and t0: "0 < t" by simp_all
  have notnew: "cellAt m t \<noteq> (newRow m, newCol m)"
    using cellAt_new [OF al, of t] lt pos t0 by simp
  have notold: "cellAt m t \<noteq> (oldRow m, oldCol m)"
    using cellAt_old [OF t0 pos] .
  have within: "withinBoard (fst (cellAt m t)) (snd (cellAt m t))"
    using cellAt_within [OF al _ _ wo wn, of t] lt t0 by simp
  have up: "[t..distance m - 1] = t # [t + 1..distance m - 1]"
    using lt by (simp add: upto_rec1)
  show ?case
  proof (cases "b (cellAt m t) = None")
    case False
    then show ?thesis
      using notnew notold within up
      by (subst obstructionScan.simps) (auto simp: getPieceAt_def prod_eq_iff)
  next
    case True
    have ih: "obstructionScan b m \<bar>newRow m - oldRow m\<bar> \<bar>newCol m - oldCol m\<bar>
           (fst (cellAt m (t + 1))) (snd (cellAt m (t + 1))) (tr @ [cellAt m t])
         = Some ((\<forall>c \<in> set (map (cellAt m) [t + 1..distance m - 1]). b c = None),
                 (tr @ [cellAt m t]) @ upToOccupied b (map (cellAt m) [t + 1..distance m - 1]))"
      using Suc.IH [of "t + 1" "tr @ [cellAt m t]"] Suc.prems by simp
    have step: "fst (cellAt m t) + rowStep m \<bar>newRow m - oldRow m\<bar> = fst (cellAt m (t + 1))"
      "snd (cellAt m t) + colStep m \<bar>newCol m - oldCol m\<bar> = snd (cellAt m (t + 1))"
      by (simp_all add: rowStep_sgn colStep_sgn cellAt_def algebra_simps)
    have nn: "fst (cellAt m t) \<noteq> newRow m \<or> snd (cellAt m t) \<noteq> newCol m"
      using notnew by (simp add: prod_eq_iff)
    have no: "\<not> (fst (cellAt m t) = oldRow m \<and> snd (cellAt m t) = oldCol m)"
      using notold by (simp add: prod_eq_iff)
    show ?thesis
      apply (subst obstructionScan.simps)
      apply (simp only: nn no within if_True if_False not_True_eq_False not_not step)
      apply (simp add: getPieceAt_def True up ih)
      done
  qed
qed

lemma scan_origin:
  assumes al: "aligned m"
    and wo: "withinBoard (oldRow m) (oldCol m)"
    and wn: "withinBoard (newRow m) (newCol m)"
  shows "obstructionScan b m \<bar>newRow m - oldRow m\<bar> \<bar>newCol m - oldCol m\<bar>
           (oldRow m) (oldCol m) []
         = Some ((\<forall>c \<in> set (between m). b c = None),
                 if distance m = 0 then []
                 else (oldRow m, oldCol m) # upToOccupied b (between m))"
proof (cases "distance m = 0")
  case True
  then have "oldRow m = newRow m" "oldCol m = newCol m"
    by (simp_all add: distance_def max_def split: if_splits)
  then show ?thesis using True
    by (subst obstructionScan.simps) (simp add: between_def)
next
  case False
  then have pos: "1 \<le> distance m" by (simp add: distance_def max_def split: if_splits)
  have ne: "oldRow m \<noteq> newRow m \<or> oldCol m \<noteq> newCol m"
    using False by (auto simp: distance_def)
  have step: "oldRow m + rowStep m \<bar>newRow m - oldRow m\<bar> = fst (cellAt m 1)"
    "oldCol m + colStep m \<bar>newCol m - oldCol m\<bar> = snd (cellAt m 1)"
    by (simp_all add: rowStep_sgn colStep_sgn cellAt_def)
  show ?thesis
    using ne False
      scan_from [where t = 1 and b = b and tr = "[(oldRow m, oldCol m)]", OF al wo wn _ pos refl]
    by (subst obstructionScan.simps) (auto simp: step between_def)
qed

lemma length_upToOccupied: "length (upToOccupied b cs) \<le> length cs"
  by (induction cs) auto

lemma set_upToOccupied: "set (upToOccupied b cs) \<subseteq> set cs"
  by (induction cs) auto

lemma upToOccupied_clear: "\<forall>c \<in> set cs. b c = None \<Longrightarrow> upToOccupied b cs = cs"
  by (induction cs) auto

lemma distance_le7:
  "withinBoard (oldRow m) (oldCol m) \<Longrightarrow> withinBoard (newRow m) (newCol m) \<Longrightarrow> distance m \<le> 7"
  by (auto simp: withinBoard_def distance_def)

lemma castleScan_from:
  assumes s: "cdiv (newCol m - oldCol m) dx = s" and s1: "s = 1 \<or> s = - 1"
    and side: "0 \<le> (rookCol - j) * s"
    and k: "k = nat ((rookCol - j) * s)"
  shows "castleScan b m rookCol dx j
         = Some (\<forall>i. 0 \<le> i \<and> i < (rookCol - j) * s \<and> j + i * s \<noteq> oldCol m
                      \<longrightarrow> b (oldRow m, j + i * s) = None)"
  using side k
proof (induction k arbitrary: j)
  case 0
  then have "j = rookCol" using s1 by auto
  then show ?case by (subst castleScan.simps) auto
next
  case (Suc k)
  then have ne: "j \<noteq> rookCol" by auto
  have side': "0 \<le> (rookCol - (j + s)) * s" and k': "k = nat ((rookCol - (j + s)) * s)"
    using Suc.prems s1 by (auto simp: algebra_simps)
  have ih: "castleScan b m rookCol dx (j + s)
         = Some (\<forall>i. 0 \<le> i \<and> i < (rookCol - (j + s)) * s \<and> j + s + i * s \<noteq> oldCol m
                      \<longrightarrow> b (oldRow m, j + s + i * s) = None)"
    using Suc.IH [OF side' k'] .
  have shift: "(\<forall>i. 0 \<le> i \<and> i < (rookCol - j) * s \<and> j + i * s \<noteq> oldCol m
                      \<longrightarrow> b (oldRow m, j + i * s) = None)
     \<longleftrightarrow> ((j \<noteq> oldCol m \<longrightarrow> b (oldRow m, j) = None) \<and>
          (\<forall>i. 0 \<le> i \<and> i < (rookCol - (j + s)) * s \<and> j + s + i * s \<noteq> oldCol m
                      \<longrightarrow> b (oldRow m, j + s + i * s) = None))" (is "?L \<longleftrightarrow> ?A \<and> ?R")
  proof
    assume L: ?L
    have pos: "0 < (rookCol - j) * s" using Suc.prems by simp
    have ?A using L [rule_format, of 0] pos by simp
    moreover have ?R
    proof (intro allI impI)
      fix i assume i: "0 \<le> i \<and> i < (rookCol - (j + s)) * s \<and> j + s + i * s \<noteq> oldCol m"
      have "i + 1 < (rookCol - j) * s" using i s1 by (auto simp: algebra_simps)
      then show "b (oldRow m, j + s + i * s) = None"
        using L [rule_format, of "i + 1"] i by (simp add: algebra_simps)
    qed
    ultimately show "?A \<and> ?R" ..
  next
    assume AR: "?A \<and> ?R"
    show ?L
    proof (intro allI impI)
      fix i assume i: "0 \<le> i \<and> i < (rookCol - j) * s \<and> j + i * s \<noteq> oldCol m"
      show "b (oldRow m, j + i * s) = None"
      proof (cases "i = 0")
        case True
        then show ?thesis using AR i by simp
      next
        case False
        then have "0 \<le> i - 1" using i by simp
        moreover have "i - 1 < (rookCol - (j + s)) * s" using i s1 by (auto simp: algebra_simps)
        ultimately show ?thesis using AR [THEN conjunct2, rule_format, of "i - 1"] i
          by (simp add: algebra_simps)
      qed
    qed
  qed
  show ?case
    apply (subst castleScan.simps)
    apply (simp only: s ih ne shift)
    apply (auto simp: getPieceAt_def)
    done
qed

lemma castleScan_start:
  assumes dx: "\<bar>newCol m - oldCol m\<bar> = 2"
    and lo: "0 \<le> oldCol m" and hi: "oldCol m \<le> 7"
    and rc: "rc = (if newCol m - oldCol m < 0 then 0 else 7)"
  shows "castleScan b m rc 2 (oldCol m)
         = Some (\<forall>j \<in> set (betweenCols (oldCol m) rc). b (oldRow m, j) = None)"
proof (cases "newCol m - oldCol m < 0")
  case True
  then have d: "newCol m - oldCol m = - 2" using dx by simp
  have s: "cdiv (newCol m - oldCol m) 2 = - 1" by (simp add: d cdiv_def)
  have r0: "rc = 0" using rc True by simp
  have eq: "(\<forall>i. 0 \<le> i \<and> i < (rc - oldCol m) * (- 1) \<and> oldCol m + i * (- 1) \<noteq> oldCol m
               \<longrightarrow> b (oldRow m, oldCol m + i * (- 1)) = None)
        \<longleftrightarrow> (\<forall>j \<in> set (betweenCols (oldCol m) rc). b (oldRow m, j) = None)"
    (is "?L \<longleftrightarrow> ?R")
  proof
    assume L: ?L
    show ?R
    proof
      fix j assume "j \<in> set (betweenCols (oldCol m) rc)"
      then have j: "0 < j" "j < oldCol m" using r0 lo by (auto simp: betweenCols_def)
      then show "b (oldRow m, j) = None"
        using L [rule_format, of "oldCol m - j"] r0 by simp
    qed
  next
    assume R: ?R
    show ?L
    proof (intro allI impI)
      fix i assume i: "0 \<le> i \<and> i < (rc - oldCol m) * (- 1) \<and> oldCol m + i * (- 1) \<noteq> oldCol m"
      then have "oldCol m - i \<in> set (betweenCols (oldCol m) rc)"
        using r0 lo by (auto simp: betweenCols_def)
      then show "b (oldRow m, oldCol m + i * (- 1)) = None" using R by simp
    qed
  qed
  show ?thesis
    using castleScan_from [where m = m and dx = 2 and s = "- 1" and rookCol = rc
        and j = "oldCol m" and b = b, OF s _ _ refl] r0 lo eq
    by simp
next
  case False
  then have d: "newCol m - oldCol m = 2" using dx by simp
  have s: "cdiv (newCol m - oldCol m) 2 = 1" by (simp add: d cdiv_def)
  have r7: "rc = 7" using rc False by simp
  have eq: "(\<forall>i. 0 \<le> i \<and> i < (rc - oldCol m) * 1 \<and> oldCol m + i * 1 \<noteq> oldCol m
               \<longrightarrow> b (oldRow m, oldCol m + i * 1) = None)
        \<longleftrightarrow> (\<forall>j \<in> set (betweenCols (oldCol m) rc). b (oldRow m, j) = None)"
    (is "?L \<longleftrightarrow> ?R")
  proof
    assume L: ?L
    show ?R
    proof
      fix j assume "j \<in> set (betweenCols (oldCol m) rc)"
      then have j: "oldCol m < j" "j < 7" using r7 hi by (auto simp: betweenCols_def)
      then show "b (oldRow m, j) = None"
        using L [rule_format, of "j - oldCol m"] r7 by simp
    qed
  next
    assume R: ?R
    show ?L
    proof (intro allI impI)
      fix i assume i: "0 \<le> i \<and> i < (rc - oldCol m) * 1 \<and> oldCol m + i * 1 \<noteq> oldCol m"
      then have "oldCol m + i \<in> set (betweenCols (oldCol m) rc)"
        using r7 hi by (auto simp: betweenCols_def)
      then show "b (oldRow m, oldCol m + i * 1) = None" using R by simp
    qed
  qed
  show ?thesis
    using castleScan_from [where m = m and dx = 2 and s = 1 and rookCol = rc
        and j = "oldCol m" and b = b, OF s _ _ refl] r7 hi eq
    by simp
qed

lemma snd_rookCorner: "snd (rookCorner t d) = (if d then 0 else 7)"
  by (simp add: rookCorner_def)

lemma castlingCheck_king:
  assumes "kind p = King" "\<bar>newCol m - oldCol m\<bar> = 2" "withinBoard (oldRow m) (oldCol m)"
  shows "castlingCheck t b m p \<bar>newCol m - oldCol m\<bar>
         = Some (\<exists>rook. b (rookCorner t (newCol m - oldCol m < 0)) = Some rook
                   \<and> kind rook = Rook \<and> getMoveCount p = 0 \<and> getMoveCount rook = 0
                   \<and> (\<forall>j \<in> set (betweenCols (oldCol m) (snd (rookCorner t (newCol m - oldCol m < 0)))).
                         b (oldRow m, j) = None))"
proof -
  have cs: "castleScan b m (snd (rookCorner t (newCol m - oldCol m < 0))) 2 (oldCol m)
         = Some (\<forall>j \<in> set (betweenCols (oldCol m) (snd (rookCorner t (newCol m - oldCol m < 0)))).
                   b (oldRow m, j) = None)"
    using castleScan_start [OF assms(2), of "snd (rookCorner t (newCol m - oldCol m < 0))" b] assms(3)
    by (simp add: snd_rookCorner withinBoard_def)
  have cs': "castleScan b m (snd (rookCorner t (newCol m < oldCol m))) 2 (oldCol m)
         = Some (\<forall>j \<in> set (betweenCols (oldCol m) (snd (rookCorner t (newCol m < oldCol m)))).
                   b (oldRow m, j) = None)"
    using cs by simp
  show ?thesis
    using assms(1,2)
    by (auto simp: castlingCheck_def Let_def getPieceAt_def cs' split: option.splits)
qed

lemma castlingCheck_total:
  assumes "withinBoard (oldRow m) (oldCol m)"
  shows "\<exists>r. castlingCheck t b m p \<bar>newCol m - oldCol m\<bar> = Some r"
proof (cases "kind p = King \<and> \<bar>newCol m - oldCol m\<bar> = 2")
  case True
  then show ?thesis using castlingCheck_king [OF _ _ assms] by blast
next
  case False
  then show ?thesis by (auto simp: castlingCheck_def)
qed

lemma slidingCheck_total:
  assumes "isSliding p \<longrightarrow> aligned m"
    "withinBoard (oldRow m) (oldCol m)" "withinBoard (newRow m) (newCol m)"
  shows "\<exists>r. slidingCheck b m p \<bar>newRow m - oldRow m\<bar> \<bar>newCol m - oldCol m\<bar> = Some r"
proof (cases "isSliding p")
  case True
  then show ?thesis
    using scan_origin [OF _ assms(2,3), of b] assms(1)
    by (auto simp: slidingCheck_def)
next
  case False
  then show ?thesis by (auto simp: slidingCheck_def)
qed

lemma isValidMove_total:
  assumes "alignedShape shape"
  shows "\<exists>r. isValidMove shape moves t m b = Some r"
proof -
  { fix p assume p: "b (oldRow m, oldCol m) = Some p" "shape p m"
      and w: "withinBoard (oldRow m) (oldCol m)" "withinBoard (newRow m) (newCol m)"
    have "isSliding p \<longrightarrow> aligned m" using assms p by (auto simp: alignedShape_def)
    from slidingCheck_total [OF this w] castlingCheck_total [OF w(1)]
    have "(\<exists>r. slidingCheck b m p \<bar>newRow m - oldRow m\<bar> \<bar>newCol m - oldCol m\<bar> = Some r)
          \<and> (\<exists>r. castlingCheck t b m p \<bar>newCol m - oldCol m\<bar> = Some r)"
      by blast }
  then show ?thesis
    by (fastforce simp: isValidMove_def Let_def getPieceAt_def split: option.splits Flow.splits)
qed

section \<open>Pseudo-legal moves and check, characterised\<close>

lemma collectValid_filter:
  "(\<And>m. m \<in> set ms \<Longrightarrow> \<exists>r. valid m = Some r)
   \<Longrightarrow> collectValid valid ms = Some (filter (\<lambda>m. valid m = Some True) ms)"
  by (induction ms) (auto split: option.splits)

lemma collectValid_Some:
  "collectValid valid ms = Some vs \<Longrightarrow> vs = filter (\<lambda>m. valid m = Some True) ms"
  by (induction ms arbitrary: vs) (auto split: option.splits if_splits)

lemma set_allMoves:
  "m \<in> set (allMoves c) \<longleftrightarrow>
     color m = c \<and> withinBoard (oldRow m) (oldCol m) \<and> withinBoard (newRow m) (newCol m)"
proof (cases m)
  case (Move i j k l c')
  have "i \<in> {0..7} \<and> j \<in> {0..7} \<and> k \<in> {0..7} \<and> l \<in> {0..7} \<and> c' = c
        \<Longrightarrow> Move i j k l c' \<in> set (allMoves c)"
    unfolding allMoves_def by (simp add: image_iff)
  moreover have "Move i j k l c' \<in> set (allMoves c)
        \<Longrightarrow> i \<in> {0..7} \<and> j \<in> {0..7} \<and> k \<in> {0..7} \<and> l \<in> {0..7} \<and> c' = c"
    unfolding allMoves_def by auto
  ultimately show ?thesis using Move by (auto simp: withinBoard_def)
qed

lemma generateLegalMovesInternal_filter:
  assumes "alignedShape shape"
  shows "generateLegalMovesInternal shape moves c b
         = Some (filter (\<lambda>m. isValidMove shape moves c m b = Some True) (allMoves c))"
  unfolding generateLegalMovesInternal_def
  by (rule collectValid_filter) (rule isValidMove_total [OF assms])

lemma generateLegalMovesInternal_Some:
  "generateLegalMovesInternal shape moves c b = Some ms
   \<Longrightarrow> ms = filter (\<lambda>m. isValidMove shape moves c m b = Some True) (allMoves c)"
  unfolding generateLegalMovesInternal_def by (rule collectValid_Some)

lemma anyCheck_iff:
  "anyCheck ms king \<longleftrightarrow> (\<exists>m \<in> set ms. newRow m = fst king \<and> newCol m = snd king)"
  by (induction ms) (auto simp: isCheckInternal_def)

lemma isValidMove_within:
  "isValidMove shape moves t m b = Some True
   \<Longrightarrow> withinBoard (oldRow m) (oldCol m) \<and> withinBoard (newRow m) (newCol m)"
  by (auto simp: isValidMove_def split: if_splits)

lemma isValidMove_origin:
  "isValidMove shape moves t m b = Some True
   \<Longrightarrow> \<exists>p. b (oldRow m, oldCol m) = Some p \<and> getColor p = t \<and> shape p m"
  by (auto simp: isValidMove_def getPieceAt_def split: if_splits option.splits)

text \<open>A pseudo-legal move of a colour: in the list iff valid, with that colour tag.\<close>

lemma pseudoLegal_iff:
  assumes "generateLegalMovesInternal shape moves c b = Some ms"
  shows "m \<in> set ms \<longleftrightarrow> color m = c \<and> isValidMove shape moves c m b = Some True"
  using generateLegalMovesInternal_Some [OF assms] isValidMove_within [of shape moves c m b]
  by (auto simp: set_allMoves)

lemma isKingInCheckInternal_total:
  assumes "alignedShape shape"
  shows "isKingInCheckInternal shape moves c b
         = Some (\<exists>m. color m = opponent c
                   \<and> isValidMove shape moves (opponent c) m b = Some True
                   \<and> newRow m = fst (findKing c b) \<and> newCol m = snd (findKing c b))"
proof -
  obtain ms where ms: "generateLegalMovesInternal shape moves (opponent c) b = Some ms"
    using generateLegalMovesInternal_filter [OF assms] by blast
  show ?thesis
    using pseudoLegal_iff [OF ms]
    by (auto simp: isKingInCheckInternal_def ms anyCheck_iff)
qed

lemma castlingInCheck_total:
  assumes "alignedShape shape"
  shows "castlingInCheck shape moves c b m dx
         = Some (isKingInCheckInternal shape moves c b = Some True
              \<or> isKingInCheckInternal shape moves c (Board_move b (castlingIntermediate m dx)) = Some True
              \<or> isKingInCheckInternal shape moves c
                   (Board_move (Board_move b (castlingIntermediate m dx)) (castlingFinal m dx)) = Some True)"
proof -
  obtain r0 r1 r2 where
    "isKingInCheckInternal shape moves c b = Some r0"
    "isKingInCheckInternal shape moves c (Board_move b (castlingIntermediate m dx)) = Some r1"
    "isKingInCheckInternal shape moves c
       (Board_move (Board_move b (castlingIntermediate m dx)) (castlingFinal m dx)) = Some r2"
    using isKingInCheckInternal_total [OF assms] by blast
  then show ?thesis by (simp add: castlingInCheck_def Let_def)
qed

lemma outOfCheckLoop_iff:
  assumes "alignedShape shape"
  shows "outOfCheckLoop shape moves c b ms
         = Some (\<exists>m \<in> set ms. isKingInCheckInternal shape moves c (Board_move b m) = Some False)"
proof (induction ms)
  case Nil
  show ?case by simp
next
  case (Cons m ms)
  obtain r where "isKingInCheckInternal shape moves c (Board_move b m) = Some r"
    using isKingInCheckInternal_total [OF assms] by blast
  then show ?case using Cons by auto
qed


section \<open>The chess shapes are aligned\<close>

lemma alignedShape_chessShape: "alignedShape chessShape"
  unfolding alignedShape_def
proof (intro allI impI)
  fix p m assume a: "isSliding p \<and> chessShape p m"
  show "aligned m"
  proof (cases "kind p")
    case Pawn
    then show ?thesis using a by (auto simp: chessShape_def aligned_def Let_def split: if_splits)
  next
    case Knight
    then show ?thesis using a by (simp add: isSliding_def)
  next
    case Bishop
    then show ?thesis using a by (simp add: chessShape_def aligned_def Let_def)
  next
    case Rook
    then show ?thesis using a by (auto simp: chessShape_def aligned_def Let_def)
  next
    case Queen
    then show ?thesis using a by (auto simp: chessShape_def aligned_def Let_def)
  next
    case King
    then show ?thesis using a by (simp add: isSliding_def)
  qed
qed

section \<open>Termination of the obstruction scan\<close>

lemma isValidMove_total_if:
  assumes "\<And>p. b (oldRow m, oldCol m) = Some p \<Longrightarrow> isSliding p \<Longrightarrow> shape p m \<Longrightarrow> aligned m"
  shows "\<exists>r. isValidMove shape moves t m b = Some r"
proof (cases "withinBoard (oldRow m) (oldCol m) \<and> withinBoard (newRow m) (newCol m)")
  case False
  then show ?thesis by (auto simp: isValidMove_def)
next
  case w: True
  show ?thesis
  proof (cases "b (oldRow m, oldCol m)")
    case None
    then show ?thesis using w by (auto simp: isValidMove_def getPieceAt_def)
  next
    case (Some p)
    show ?thesis
    proof (cases "shape p m")
      case False
      then show ?thesis using w Some by (auto simp: isValidMove_def getPieceAt_def)
    next
      case True
      have "isSliding p \<longrightarrow> aligned m" using assms Some True by blast
      from slidingCheck_total [OF this] w
      obtain r1 where r1: "slidingCheck b m p \<bar>newRow m - oldRow m\<bar> \<bar>newCol m - oldCol m\<bar> = Some r1"
        by blast
      obtain r2 where r2: "castlingCheck t b m p \<bar>newCol m - oldCol m\<bar> = Some r2"
        using castlingCheck_total w by blast
      show ?thesis
        using w Some True r1 r2
        by (auto simp: isValidMove_def getPieceAt_def Let_def split: option.splits Flow.splits)
    qed
  qed
qed
lemma isValidMove_total_aligned:
  "aligned m \<Longrightarrow> \<exists>r. isValidMove shape moves t m b = Some r"
  by (rule isValidMove_total_if)

lemma length_between: "length (between m) = nat (distance m - 1)"
  by (simp add: between_def)

text \<open>
  C10. For an in-board move along a row, a column or an exact diagonal, the obstruction
  scan of \<^verbatim>\<open>isValidMove\<close> returns after at most seven iterations of its loop body (the
  trace): the first at the origin, the others at the strictly intermediate cells, in
  order from the origin, up to the first occupied one, and at all of them when none is
  occupied. For such a move \<^verbatim>\<open>isValidMove\<close> returns a result, whatever the board, the
  shape predicate and the history.
\<close>

theorem obstruction_scan_terminates:
  assumes "withinBoard (oldRow m) (oldCol m)" and "withinBoard (newRow m) (newCol m)"
    and "aligned m"
  shows "\<exists>clear trace.
           obstructionScan b m \<bar>newRow m - oldRow m\<bar> \<bar>newCol m - oldCol m\<bar>
             (oldRow m) (oldCol m) [] = Some (clear, trace)
         \<and> length trace \<le> 7
         \<and> trace = (if distance m = 0 then []
                    else (oldRow m, oldCol m) # upToOccupied b (between m))
         \<and> set (tl trace) \<subseteq> set (between m)
         \<and> (clear \<longleftrightarrow> (\<forall>c \<in> set (between m). b c = None))
         \<and> (clear \<longrightarrow> tl trace = between m)
         \<and> (\<exists>r. isValidMove shape moves t m b = Some r)"
proof -
  let ?trace = "if distance m = 0 then []
                else (oldRow m, oldCol m) # upToOccupied b (between m)"
  have len: "length ?trace \<le> 7"
    using length_upToOccupied [of b "between m"] distance_le7 [OF assms(1,2)]
    by (auto simp: length_between)
  have sub: "set (tl ?trace) \<subseteq> set (between m)"
    using set_upToOccupied [of b "between m"] by auto
  have clr: "(\<forall>c \<in> set (between m). b c = None) \<longrightarrow> tl ?trace = between m"
    using upToOccupied_clear [of "between m" b] by (auto simp: between_def)
  have clr2: "(\<forall>c \<in> set (between m). b c = None) \<longrightarrow> tl ?trace = between m"
    by (rule clr)
  have tot: "\<exists>r. isValidMove shape moves t m b = Some r"
    by (rule isValidMove_total_aligned [OF assms(3)])
  show ?thesis
  proof (intro exI conjI)
    show "obstructionScan b m \<bar>newRow m - oldRow m\<bar> \<bar>newCol m - oldCol m\<bar>
             (oldRow m) (oldCol m) [] = Some ((\<forall>c \<in> set (between m). b c = None), ?trace)"
      by (rule scan_origin [OF assms(3,1,2)])
    show "length ?trace \<le> 7" by (rule len)
    show "?trace = ?trace" by (rule refl)
    show "set (tl ?trace) \<subseteq> set (between m)" by (rule sub)
    show "(\<forall>c \<in> set (between m). b c = None) \<longleftrightarrow> (\<forall>c \<in> set (between m). b c = None)"
      by (rule refl)
    show "(\<forall>c \<in> set (between m). b c = None) \<longrightarrow> tl ?trace = between m" by (rule clr)
    show "isValidMove shape moves t m b = Some (the (isValidMove shape moves t m b))"
      using tot by auto
  qed
qed

lemma between_a1_a8: "between (Move 7 0 0 0 White) = [(6,0),(5,0),(4,0),(3,0),(2,0),(1,0)]"
  by code_simp

theorem obstruction_scan_terminates_witness:
  "withinBoard 7 0 \<and> withinBoard 0 0 \<and> aligned (Move 7 0 0 0 White)
   \<and> obstructionScan emptyBoard (Move 7 0 0 0 White) 7 0 7 0 []
       = Some (True, [(7,0),(6,0),(5,0),(4,0),(3,0),(2,0),(1,0)])"
proof -
  have w: "withinBoard (oldRow (Move 7 0 0 0 White)) (oldCol (Move 7 0 0 0 White))"
    "withinBoard (newRow (Move 7 0 0 0 White)) (newCol (Move 7 0 0 0 White))"
    by (simp_all add: withinBoard_def)
  have a: "aligned (Move 7 0 0 0 White)" by (simp add: aligned_def)
  have d: "distance (Move 7 0 0 0 White) = 7" by (simp add: distance_def)
  have u: "upToOccupied emptyBoard [(6,0),(5,0),(4,0),(3,0),(2,0),(1,0)]
           = [(6,0),(5,0),(4,0),(3,0),(2,0),(1,0)]"
    by (simp add: emptyBoard_def)
  from obstruction_scan_terminates [OF w a, of emptyBoard chessShape "[]" White]
  obtain clear trace where
    r: "obstructionScan emptyBoard (Move 7 0 0 0 White) 7 0 7 0 [] = Some (clear, trace)"
      "trace = [(7,0),(6,0),(5,0),(4,0),(3,0),(2,0),(1,0)]"
      "clear \<longleftrightarrow> (\<forall>c \<in> set (between (Move 7 0 0 0 White)). emptyBoard c = None)"
    by (auto simp: between_a1_a8 d u simp del: upToOccupied.simps)
  have "clear" using r(3) by (simp add: emptyBoard_def)
  then show ?thesis
    using r(1,2) by (simp add: withinBoard_def aligned_def)
qed

text \<open>
  Off the lines the scan has no result: from a1 towards the knight-distant cell it steps
  along the diagonal, misses the destination and leaves the grid.
\<close>

lemma unaligned_scan_no_result:
  "obstructionScan emptyBoard (Move 0 0 1 2 White) 1 2 0 0 [] = None"
  by code_simp

section \<open>Check\<close>

lemma findKingIn_cases:
  "findKingIn c b cs = (- 1, - 1) \<and>
     (\<forall>cell \<in> set cs. \<not> (\<exists>p. b cell = Some p \<and> kind p = King \<and> getColor p = c))
   \<or> findKingIn c b cs \<in> set cs \<and>
     (\<exists>p. b (findKingIn c b cs) = Some p \<and> kind p = King \<and> getColor p = c)"
  by (induction c b cs rule: findKingIn.induct)
     (auto simp: getPieceAt_def split: option.splits)


text \<open>
  C3. \<^verbatim>\<open>kingIsInCheck(color)\<close> returns true iff some pseudo-legal move of the opposing
  colour (a move of the list \<^verbatim>\<open>generateLegalMovesInternal\<close> returns for it, that is an
  in-board move \<^verbatim>\<open>isValidMove\<close> accepts) has its destination on the square
  \<^verbatim>\<open>findKing\<close> returns for \<open>color\<close>: the first cell in row-major order that holds a king
  of that colour, or (-1, -1), which no move reaches, when there is none.
\<close>

theorem king_in_check_iff:
  assumes "alignedShape shape"
  shows "\<exists>ms. generateLegalMovesInternal shape (moveList g) (opponent c) (board g) = Some ms
         \<and> (\<forall>m. m \<in> set ms \<longleftrightarrow>
                 color m = opponent c
                 \<and> isValidMove shape (moveList g) (opponent c) m (board g) = Some True)
         \<and> kingIsInCheck shape g c
             = Some (\<exists>m \<in> set ms. (newRow m, newCol m) = findKing c (board g))
         \<and> (findKing c (board g) = (- 1, - 1) \<and>
              (\<forall>cell \<in> set cells.
                 \<not> (\<exists>p. board g cell = Some p \<and> kind p = King \<and> getColor p = c))
            \<or> findKing c (board g) \<in> set cells \<and>
              (\<exists>p. board g (findKing c (board g)) = Some p \<and> kind p = King
                   \<and> getColor p = c))"
proof -
  obtain ms where ms: "generateLegalMovesInternal shape (moveList g) (opponent c) (board g) = Some ms"
    using generateLegalMovesInternal_filter [OF assms] by blast
  have "kingIsInCheck shape g c
        = Some (\<exists>m \<in> set ms. (newRow m, newCol m) = findKing c (board g))"
    by (auto simp: kingIsInCheck_def isKingInCheckInternal_def ms anyCheck_iff prod_eq_iff)
  then show ?thesis
    using ms pseudoLegal_iff [OF ms] findKingIn_cases [of c "board g" cells]
    unfolding findKing_def by blast
qed

section \<open>A pinned rook\<close>

lemma pin_valid:
  "isValidMove chessShape [] White (Move 6 4 6 0 White) pinBoard = Some True"
  by code_simp

lemma pin_attack:
  "isValidMove chessShape [] Black (Move 0 4 7 4 Black)
     (Board_move pinBoard (Move 6 4 6 0 White)) = Some True"
  by code_simp

lemma pin_king: "findKing White (Board_move pinBoard (Move 6 4 6 0 White)) = (7, 4)"
  by code_simp

lemma pin_exposed:
  "isKingInCheckInternal chessShape [] White (Board_move pinBoard (Move 6 4 6 0 White))
   = Some True"
  unfolding isKingInCheckInternal_total [OF alignedShape_chessShape]
  using pin_attack by (auto simp: pin_king opponent_def intro!: exI [of _ "Move 0 4 7 4 Black"])

lemma pin_fields:
  "board pinGame = pinBoard" "turn pinGame = White" "moveList pinGame = []"
  "gameState pinGame = Ongoing"
  by (simp_all add: pinGame_def)

lemma pin_cells: "pinBoard (6, 4) = Some (Piece White Rook 0)" "pinBoard (6, 0) = None"
  by (simp_all add: pinBoard_def emptyBoard_def)

lemma pin_moveInternal:
  "moveInternal chessShape pinGame (Move 6 4 6 0 White) = Some (False, pinGame)"
  by (simp add: moveInternal_def pin_fields pin_valid pin_exposed Let_def isA_def
      getPieceAt_def pin_cells)

lemma exposed_fields:
  "board exposedGame = Board_move pinBoard (Move 6 4 6 0 White)" "moveList exposedGame = []"
  by (simp_all add: exposedGame_def)

theorem king_in_check_iff_witness:
  "alignedShape chessShape \<and> kingIsInCheck chessShape exposedGame White = Some True"
proof -
  from king_in_check_iff [OF alignedShape_chessShape, of exposedGame White]
  obtain ms where
    iff: "\<And>m. m \<in> set ms \<longleftrightarrow> color m = opponent White
            \<and> isValidMove chessShape (moveList exposedGame) (opponent White) m
                  (board exposedGame) = Some True"
    and res: "kingIsInCheck chessShape exposedGame White
            = Some (\<exists>m \<in> set ms. (newRow m, newCol m) = findKing White (board exposedGame))"
    by blast
  have "Move 0 4 7 4 Black \<in> set ms"
    using pin_attack by (simp add: iff exposed_fields opponent_def)
  then have "\<exists>m \<in> set ms. (newRow m, newCol m) = findKing White (board exposedGame)"
    by (intro bexI [of _ "Move 0 4 7 4 Black"]) (simp_all add: exposed_fields pin_king)
  then show ?thesis using res alignedShape_chessShape by simp
qed

theorem move_rejected_unchanged_witness:
  "move chessShape pinGame (Move 6 4 6 0 White) = Some (False, pinGame)"
proof -
  have "map_option fst (move chessShape pinGame (Move 6 4 6 0 White)) = Some False"
    by (simp add: move_def pin_moveInternal)
  then obtain g' where h: "move chessShape pinGame (Move 6 4 6 0 White) = Some (False, g')"
    by (cases "move chessShape pinGame (Move 6 4 6 0 White)") auto
  from move_rejected_unchanged [OF h] h show ?thesis by simp
qed


section \<open>Legal moves\<close>

lemma nonCheckLoop_Cons:
  "nonCheckLoop shape g (m # ms) =
     (case (if isCastling (board g) m
            then castlingInCheck shape (moveList g) (turn g) (board g) m 2
            else isKingInCheckInternal shape (moveList g) (turn g) (Board_move (board g) m)) of
        None \<Rightarrow> None
      | Some inCheck \<Rightarrow>
          (case nonCheckLoop shape g ms of
             None \<Rightarrow> None
           | Some rest \<Rightarrow> Some (if inCheck then rest else m # rest)))"
  by (auto simp: isCastling_def getPieceAt_def Let_def)

lemma nonCheckLoop_filter:
  assumes "alignedShape shape"
  shows "nonCheckLoop shape g ms = Some (filter (keptByLoop shape g) ms)"
proof (induction ms)
  case Nil
  show ?case by simp
next
  case (Cons m ms)
  obtain r0 r1 r2 r where r:
    "isKingInCheckInternal shape (moveList g) (turn g) (board g) = Some r0"
    "isKingInCheckInternal shape (moveList g) (turn g)
       (Board_move (board g) (castlingIntermediate m 2)) = Some r1"
    "isKingInCheckInternal shape (moveList g) (turn g)
       (Board_move (Board_move (board g) (castlingIntermediate m 2)) (castlingFinal m 2)) = Some r2"
    "isKingInCheckInternal shape (moveList g) (turn g) (Board_move (board g) m) = Some r"
    using isKingInCheckInternal_total [OF assms] by blast
  have c: "castlingInCheck shape (moveList g) (turn g) (board g) m 2 = Some (r0 \<or> r1 \<or> r2)"
    using r by (simp add: castlingInCheck_def Let_def)
  show ?case
    unfolding nonCheckLoop_Cons
    by (cases "isCastling (board g) m") (simp_all add: c r Cons keptByLoop_def)
qed

lemma generateLegalMoves_filter:
  assumes "alignedShape shape"
  shows "generateLegalMoves shape g
     = Some (filter (keptByLoop shape g)
               (filter (\<lambda>m. isValidMove shape (moveList g) (turn g) m (board g) = Some True)
                  (allMoves (turn g))))"
  by (simp add: generateLegalMoves_def generateLegalMovesInternal_filter [OF assms]
      nonCheckLoop_filter [OF assms])


section \<open>The game state after a move\<close>

lemma resetCheck_fields:
  "turn (resetCheck g) = turn g" "moveList (resetCheck g) = moveList g"
  "board (resetCheck g) = board g"
  "gameState (resetCheck g)
   = (if gameState g = (if turn g = White then CheckForBlack else CheckForWhite)
      then Ongoing else gameState g)"
  by (simp_all add: resetCheck_def)


lemma outOfCheckLoop_Some:
  "outOfCheckLoop shape moves c b ms = Some r
   \<Longrightarrow> r = (\<exists>m \<in> set ms. isKingInCheckInternal shape moves c (Board_move b m) = Some False)"
  by (induction ms) (auto split: option.splits if_splits)

lemma computeState_Some:
  assumes "computeState shape g c = Some g'"
  shows "board g' = board g \<and> turn g' = turn g \<and> moveList g' = moveList g
     \<and> (\<exists>inCheck. isKingInCheckInternal shape (moveList g) c (board g) = Some inCheck
          \<and> (\<not> inCheck \<longrightarrow> gameState g' = gameState g)
          \<and> (inCheck \<longrightarrow>
               (\<exists>ps. generateLegalMovesInternal shape (moveList g) c (board g) = Some ps
                  \<and> gameState g' =
                      (if \<exists>m \<in> set ps. isKingInCheckInternal shape (moveList g) c
                                          (Board_move (board g) m) = Some False
                       then (if c = White then CheckForBlack else CheckForWhite)
                       else (if c = White then CheckmateForBlack else CheckmateForWhite)))))"
proof -
  obtain inCheck where ic: "isKingInCheckInternal shape (moveList g) c (board g) = Some inCheck"
    using assms by (auto simp: computeState_def split: option.splits)
  show ?thesis
  proof (cases inCheck)
    case False
    then have "g' = g" using assms ic by (simp add: computeState_def)
    then show ?thesis using ic False by (intro conjI exI [of _ False]) simp_all
  next
    case True
    obtain ps where ps: "generateLegalMovesInternal shape (moveList g) c (board g) = Some ps"
      using assms ic True by (auto simp: computeState_def split: option.splits)
    obtain r where r: "outOfCheckLoop shape (moveList g) c (board g) ps = Some r"
      using assms ic True ps by (auto simp: computeState_def split: option.splits)
    have g': "g' = g\<lparr>gameState :=
                 (if r then (if c = White then CheckForBlack else CheckForWhite)
                  else (if c = White then CheckmateForBlack else CheckmateForWhite))\<rparr>"
      using assms ic True ps r by (cases r) (simp_all add: computeState_def)
    have "r = (\<exists>m \<in> set ps. isKingInCheckInternal shape (moveList g) c
                                          (Board_move (board g) m) = Some False)"
      by (rule outOfCheckLoop_Some [OF r])
    then show ?thesis
      using ic True ps g' by (intro conjI exI [of _ True] exI [of _ ps] impI) simp_all
  qed
qed

lemma computeState_total:
  assumes "alignedShape shape"
  shows "\<exists>g'. computeState shape g c = Some g'"
proof -
  obtain r ps where r: "isKingInCheckInternal shape (moveList g) c (board g) = Some r"
    "generateLegalMovesInternal shape (moveList g) c (board g) = Some ps"
    using isKingInCheckInternal_total [OF assms] generateLegalMovesInternal_filter [OF assms]
    by blast
  show ?thesis
    by (simp add: computeState_def r outOfCheckLoop_iff [OF assms])
qed


lemma move_success:
  assumes "alignedShape shape" and "moveInternal shape g m = Some (True, g1)"
  shows "\<exists>g'. move shape g m = Some (True, g') \<and> board g' = board g1"
proof -
  obtain g' where g': "computeState shape g1 (opponent (turn g1)) = Some g'"
    using computeState_total [OF assms(1)] by blast
  have "move shape g m = Some (True, g')" using assms(2) g' by (simp add: move_def)
  then show ?thesis using computeState_Some [OF g'] by blast
qed


lemma not_in_check_by_shape:
  assumes "alignedShape shape"
    and "\<And>i j p. b (i, j) = Some p \<Longrightarrow> getColor p = opponent c
           \<Longrightarrow> \<not> shape p (Move i j (fst (findKing c b)) (snd (findKing c b)) (opponent c))"
  shows "isKingInCheckInternal shape moves c b = Some False"
proof -
  { fix m assume m: "color m = opponent c"
      "isValidMove shape moves (opponent c) m b = Some True"
      "newRow m = fst (findKing c b)" "newCol m = snd (findKing c b)"
    from isValidMove_origin [OF m(2)] obtain p where
      p: "b (oldRow m, oldCol m) = Some p" "getColor p = opponent c" "shape p m" by blast
    have "m = Move (oldRow m) (oldCol m) (fst (findKing c b)) (snd (findKing c b)) (opponent c)"
      using m by (cases m) simp
    with assms(2) [OF p(1,2)] p(3) have False by simp }
  then show ?thesis
    unfolding isKingInCheckInternal_total [OF assms(1)] by blast
qed

lemma in_check_by_move:
  assumes "alignedShape shape"
    and "isValidMove shape moves (opponent c) a b = Some True"
    and "color a = opponent c"
    and "(newRow a, newCol a) = findKing c b"
  shows "isKingInCheckInternal shape moves c b = Some True"
  unfolding isKingInCheckInternal_total [OF assms(1)]
  using assms(2,3,4) by (auto simp: prod_eq_iff)

text \<open>
  The same with obstruction: no move from the cell of an opposing piece to the king's
  square is accepted.
\<close>

lemma not_in_check_by_moves:
  assumes "alignedShape shape"
    and "\<And>a. a \<in> set attackers \<Longrightarrow> isValidMove shape moves (opponent c) a b \<noteq> Some True"
    and "\<And>i j p. b (i, j) = Some p \<Longrightarrow> getColor p = opponent c
           \<Longrightarrow> Move i j (fst (findKing c b)) (snd (findKing c b)) (opponent c) \<in> set attackers"
  shows "isKingInCheckInternal shape moves c b = Some False"
proof -
  { fix m assume m: "color m = opponent c"
      "isValidMove shape moves (opponent c) m b = Some True"
      "newRow m = fst (findKing c b)" "newCol m = snd (findKing c b)"
    from isValidMove_origin [OF m(2)] obtain p where
      p: "b (oldRow m, oldCol m) = Some p" "getColor p = opponent c" by blast
    have "m = Move (oldRow m) (oldCol m) (fst (findKing c b)) (snd (findKing c b)) (opponent c)"
      using m by (cases m) simp
    with assms(3) [OF p] have "m \<in> set attackers" by simp
    with assms(2) m(2) have False by blast }
  then show ?thesis
    unfolding isKingInCheckInternal_total [OF assms(1)] by blast
qed

section \<open>A rook check\<close>














section \<open>Check, checkmate and a check escaped\<close>




















section \<open>The pawn's diagonal move\<close>

lemma between_one_step:
  "\<bar>newRow m - oldRow m\<bar> = 1 \<Longrightarrow> \<bar>newCol m - oldCol m\<bar> = 1 \<Longrightarrow> between m = []"
  by (simp add: between_def distance_def)

text \<open>
  C4. The en-passant branch of \<^verbatim>\<open>isValidMove\<close> (lines 153-166) never reads the colour of
  the pawn beside the origin, although its comment asks for a pawn that has advanced two
  positions in the opponent's last turn: a one-step diagonal move of a pawn onto an empty
  cell is accepted whenever the cell beside the origin in the destination's column holds
  a pawn, of whichever colour, and the last move of the history is a two-row advance that
  landed on that cell.
\<close>

theorem en_passant_neighbour_colour_untested:
  assumes w: "withinBoard (oldRow m) (oldCol m)" "withinBoard (newRow m) (newCol m)"
    and p: "b (oldRow m, oldCol m) = Some p" "kind p = Pawn" "getColor p = t" "shape p m"
    and d: "\<bar>newRow m - oldRow m\<bar> = 1" "\<bar>newCol m - oldCol m\<bar> = 1"
    and e: "b (newRow m, newCol m) = None"
    and q: "b (oldRow m, newCol m) = Some q" "kind q = Pawn"
    and h: "moves \<noteq> []" "newRow (last moves) = oldRow m" "newCol (last moves) = newCol m"
      "\<bar>newRow (last moves) - oldRow (last moves)\<bar> = 2"
  shows "isValidMove shape moves t m b = Some True"
proof -
  have al: "aligned m" using d by (simp add: aligned_def)
  have s: "slidingCheck b m p 1 1 = Some True"
    using scan_origin [OF al w, of b] d p(2)
    by (simp add: slidingCheck_def isSliding_def between_one_step)
  have c: "cdiv (newCol m - oldCol m) 1 = newCol m - oldCol m"
    using d(2) by (auto simp: cdiv_def sgn_if)
  have wn: "withinBoard (oldRow m) (newCol m)"
    using w by (simp add: withinBoard_def)
  have pc: "pawnCheck b moves m p None 1 1 = Return True"
    using p(2) q h wn by (simp add: pawnCheck_def Let_def c isA_def getPieceAt_def)
  show ?thesis
    using w p d e s pc by (simp add: isValidMove_def getPieceAt_def Let_def)
qed

text \<open>
  With White to move twice in a row, as on the copies of \<^verbatim>\<open>Level4::minimax\<close>, whose turn
  \<^verbatim>\<open>move\<close> never changes, the white pawn b4 is accepted onto a3 beside White's own pawn
  that has just advanced a2-a4.
\<close>

theorem en_passant_neighbour_colour_untested_witness:
  "ownPawnBoard (4, 1) = Some (Piece White Pawn 2)
   \<and> ownPawnBoard (3, 0) = None
   \<and> ownPawnBoard (4, 0) = Some (Piece White Pawn 1)
   \<and> isValidMove chessShape [Move 6 0 4 0 White] White (Move 4 1 3 0 White) ownPawnBoard
       = Some True"
proof -
  have c: "ownPawnBoard (4, 1) = Some (Piece White Pawn 2)" "ownPawnBoard (3, 0) = None"
    "ownPawnBoard (4, 0) = Some (Piece White Pawn 1)"
    by (simp_all add: ownPawnBoard_def emptyBoard_def)
  have "isValidMove chessShape [Move 6 0 4 0 White] White (Move 4 1 3 0 White) ownPawnBoard
       = Some True"
    by (rule en_passant_neighbour_colour_untested
        [where p = "Piece White Pawn 2" and q = "Piece White Pawn 1"])
       (simp_all add: c withinBoard_def chessShape_def)
  then show ?thesis using c by simp
qed

section \<open>The simulation of an en-passant capture\<close>

text \<open>
  C2. \<^verbatim>\<open>generateLegalMoves\<close> does not simulate an en-passant capture as \<^verbatim>\<open>move\<close>
  commits it. A pawn's diagonal move onto an empty cell that \<^verbatim>\<open>isValidMove\<close> accepts is
  tested, like every move outside the castling branch, on the copy after
  \<^verbatim>\<open>Board::move\<close> (line 408), where the captured pawn still stands beside the origin;
  \<^verbatim>\<open>moveInternal\<close> tests the same copy (line 262) and commits with
  \<^verbatim>\<open>Board::enPassantMove\<close> (line 268), which removes that pawn. So whenever the king is
  out of check on the copy, the capture is in the list \<^verbatim>\<open>generateLegalMoves\<close> returns
  and \<^verbatim>\<open>move\<close> succeeds with the board of \<^verbatim>\<open>enPassantMove\<close>, whether or not the king
  is in check on that board.
\<close>

theorem en_passant_tested_on_plain_move:
  assumes al: "alignedShape shape"
    and v: "isValidMove shape (moveList g) (turn g) m (board g) = Some True"
    and c: "color m = turn g"
    and p: "isA Pawn (board g (oldRow m, oldCol m))"
    and d: "newRow m \<noteq> oldRow m" "newCol m \<noteq> oldCol m"
    and e: "board g (newRow m, newCol m) = None"
    and s: "isKingInCheckInternal shape (moveList g) (turn g) (Board_move (board g) m)
            = Some False"
  shows "\<exists>ls g'. generateLegalMoves shape g = Some ls \<and> m \<in> set ls
           \<and> move shape g m = Some (True, g')
           \<and> board g' = Board_enPassantMove (board g) m
           \<and> moveList g' = moveList g @ [m] \<and> turn g' = turn g"
proof -
  have nc: "\<not> isCastling (board g) m"
    using p by (auto simp: isCastling_def isA_def split: option.splits)
  have k: "keptByLoop shape g m" using nc s by (simp add: keptByLoop_def)
  have a: "m \<in> set (allMoves (turn g))"
    using isValidMove_within [OF v] c by (simp add: set_allMoves)
  have ls: "m \<in> set (filter (keptByLoop shape g)
               (filter (\<lambda>m. isValidMove shape (moveList g) (turn g) m (board g) = Some True)
                  (allMoves (turn g))))"
    using k a v by simp
  have mi: "moveInternal shape g m
            = Some (True, resetCheck (g\<lparr>board := Board_enPassantMove (board g) m,
                                         moveList := moveList g @ [m]\<rparr>))"
    using v p d e s by (simp add: moveInternal_def Let_def getPieceAt_def)
  obtain g' where g': "move shape g m = Some (True, g')"
    and b: "board g' = Board_enPassantMove (board g) m"
    using move_success [OF al mi] by (auto simp: resetCheck_fields)
  have "moveList g' = moveList g @ [m] \<and> turn g' = turn g"
    using g' mi computeState_Some [of shape _ _ g']
    by (auto simp: move_def resetCheck_fields split: option.splits)
  then show ?thesis
    using generateLegalMoves_filter [OF al, of g] ls g' b by blast
qed

section \<open>An en-passant capture that uncovers the fifth rank\<close>

lemma rank_fields:
  "board rankGame = rankBoard" "turn rankGame = White"
  "moveList rankGame = [Move 1 3 3 3 Black]" "gameState rankGame = Ongoing"
  by (simp_all add: rankGame_def)

lemma rank_valid:
  "isValidMove chessShape [Move 1 3 3 3 Black] White (Move 3 4 2 3 White) rankBoard = Some True"
  by code_simp

lemma rank_plain:
  "Board_move rankBoard (Move 3 4 2 3 White)
   = emptyBoard((3, 0) := Some (Piece White King 4), (3, 3) := Some (Piece Black Pawn 1),
               (3, 7) := Some (Piece Black Rook 2), (0, 7) := Some (Piece Black King 1),
               (2, 3) := Some (Piece White Pawn 3))"
  by (rule ext) (simp add: Board_move_def getPieceAt_def rankBoard_def emptyBoard_def)

lemma rank_kings:
  "findKing White rankBoard = (3, 0)"
  "findKing White (Board_move rankBoard (Move 3 4 2 3 White)) = (3, 0)"
  "findKing White (Board_enPassantMove rankBoard (Move 3 4 2 3 White)) = (3, 0)"
  by code_simp+

lemma rank_before:
  "isValidMove chessShape [Move 1 3 3 3 Black] Black (Move 3 3 3 0 Black) rankBoard
   = Some False"
  "isValidMove chessShape [Move 1 3 3 3 Black] Black (Move 3 7 3 0 Black) rankBoard
   = Some False"
  "isValidMove chessShape [Move 1 3 3 3 Black] Black (Move 0 7 3 0 Black) rankBoard
   = Some False"
  by code_simp+

lemma rank_simulated:
  "isValidMove chessShape [Move 1 3 3 3 Black] Black (Move 3 3 3 0 Black)
     (Board_move rankBoard (Move 3 4 2 3 White)) = Some False"
  "isValidMove chessShape [Move 1 3 3 3 Black] Black (Move 3 7 3 0 Black)
     (Board_move rankBoard (Move 3 4 2 3 White)) = Some False"
  "isValidMove chessShape [Move 1 3 3 3 Black] Black (Move 0 7 3 0 Black)
     (Board_move rankBoard (Move 3 4 2 3 White)) = Some False"
  by code_simp+

lemma rank_safe_before:
  "isKingInCheckInternal chessShape [Move 1 3 3 3 Black] White rankBoard = Some False"
proof (rule not_in_check_by_moves [OF alignedShape_chessShape,
      where attackers = "[Move 3 3 3 0 Black, Move 3 7 3 0 Black, Move 0 7 3 0 Black]"])
  fix a assume "a \<in> set [Move 3 3 3 0 Black, Move 3 7 3 0 Black, Move 0 7 3 0 Black]"
  then show "isValidMove chessShape [Move 1 3 3 3 Black] (opponent White) a rankBoard
             \<noteq> Some True"
    using rank_before by (auto simp: opponent_def)
next
  fix i j p assume "rankBoard (i, j) = Some p" "getColor p = opponent White"
  then show "Move i j (fst (findKing White rankBoard)) (snd (findKing White rankBoard))
               (opponent White)
             \<in> set [Move 3 3 3 0 Black, Move 3 7 3 0 Black, Move 0 7 3 0 Black]"
    unfolding rank_kings
    by (auto simp: rankBoard_def emptyBoard_def opponent_def split: if_splits)
qed

lemma rank_safe_simulated:
  "isKingInCheckInternal chessShape [Move 1 3 3 3 Black] White
     (Board_move rankBoard (Move 3 4 2 3 White)) = Some False"
proof (rule not_in_check_by_moves [OF alignedShape_chessShape,
      where attackers = "[Move 3 3 3 0 Black, Move 3 7 3 0 Black, Move 0 7 3 0 Black]"])
  fix a assume "a \<in> set [Move 3 3 3 0 Black, Move 3 7 3 0 Black, Move 0 7 3 0 Black]"
  then show "isValidMove chessShape [Move 1 3 3 3 Black] (opponent White) a
               (Board_move rankBoard (Move 3 4 2 3 White)) \<noteq> Some True"
    using rank_simulated by (auto simp: opponent_def)
next
  fix i j p
  assume "Board_move rankBoard (Move 3 4 2 3 White) (i, j) = Some p"
    "getColor p = opponent White"
  then show "Move i j (fst (findKing White (Board_move rankBoard (Move 3 4 2 3 White))))
               (snd (findKing White (Board_move rankBoard (Move 3 4 2 3 White))))
               (opponent White)
             \<in> set [Move 3 3 3 0 Black, Move 3 7 3 0 Black, Move 0 7 3 0 Black]"
    unfolding rank_kings
    by (auto simp: rank_plain emptyBoard_def opponent_def split: if_splits)
qed

lemma rank_committed:
  "Board_enPassantMove rankBoard (Move 3 4 2 3 White)
   = emptyBoard((3, 0) := Some (Piece White King 4), (3, 7) := Some (Piece Black Rook 2),
               (0, 7) := Some (Piece Black King 1), (2, 3) := Some (Piece White Pawn 3))"
  by (rule ext)
     (simp add: Board_enPassantMove_def Board_move_def getPieceAt_def rankBoard_def
       emptyBoard_def)

lemma rank_exposed:
  "isKingInCheckInternal chessShape [Move 1 3 3 3 Black, Move 3 4 2 3 White] White
     (Board_enPassantMove rankBoard (Move 3 4 2 3 White)) = Some True"
proof (rule in_check_by_move [OF alignedShape_chessShape, of _ _ "Move 3 7 3 0 Black"])
  show "isValidMove chessShape [Move 1 3 3 3 Black, Move 3 4 2 3 White] (opponent White)
          (Move 3 7 3 0 Black) (Board_enPassantMove rankBoard (Move 3 4 2 3 White)) = Some True"
    by code_simp
qed (simp_all add: opponent_def rank_kings)

text \<open>
  White's king is out of check before e5xd6; the capture is returned by
  \<^verbatim>\<open>generateLegalMoves\<close>, \<^verbatim>\<open>move\<close> accepts it, both pawns leave the fifth rank, and
  White's king is in check from the rook h5 on the board \<^verbatim>\<open>move\<close> leaves.
\<close>

theorem en_passant_tested_on_plain_move_witness:
  "kingIsInCheck chessShape rankGame White = Some False
   \<and> (\<exists>ls g'. generateLegalMoves chessShape rankGame = Some ls
          \<and> Move 3 4 2 3 White \<in> set ls
          \<and> move chessShape rankGame (Move 3 4 2 3 White) = Some (True, g')
          \<and> board g' (3, 3) = None \<and> board g' (3, 4) = None
          \<and> board g' (2, 3) = Some (Piece White Pawn 3)
          \<and> kingIsInCheck chessShape g' White = Some True)"
proof -
  have p: "isA Pawn (board rankGame (oldRow (Move 3 4 2 3 White), oldCol (Move 3 4 2 3 White)))"
    and e: "board rankGame (newRow (Move 3 4 2 3 White), newCol (Move 3 4 2 3 White)) = None"
    by (simp_all add: rank_fields rankBoard_def emptyBoard_def isA_def)
  have v: "isValidMove chessShape (moveList rankGame) (turn rankGame) (Move 3 4 2 3 White)
             (board rankGame) = Some True"
    using rank_valid by (simp add: rank_fields)
  have s: "isKingInCheckInternal chessShape (moveList rankGame) (turn rankGame)
             (Board_move (board rankGame) (Move 3 4 2 3 White)) = Some False"
    using rank_safe_simulated by (simp add: rank_fields)
  from en_passant_tested_on_plain_move [OF alignedShape_chessShape v _ p _ _ e s]
  obtain ls g' where
    ls: "generateLegalMoves chessShape rankGame = Some ls" "Move 3 4 2 3 White \<in> set ls"
    and mv: "move chessShape rankGame (Move 3 4 2 3 White) = Some (True, g')"
    and b: "board g' = Board_enPassantMove rankBoard (Move 3 4 2 3 White)"
    and l: "moveList g' = [Move 1 3 3 3 Black, Move 3 4 2 3 White]"
    by (auto simp: rank_fields)
  have "kingIsInCheck chessShape g' White = Some True"
    using rank_exposed by (simp add: kingIsInCheck_def b l)
  moreover have "kingIsInCheck chessShape rankGame White = Some False"
    using rank_safe_before by (simp add: kingIsInCheck_def rank_fields)
  moreover have "board g' (3, 3) = None \<and> board g' (3, 4) = None
          \<and> board g' (2, 3) = Some (Piece White Pawn 3)"
    by (simp add: b rank_committed emptyBoard_def)
  ultimately show ?thesis using ls mv by blast
qed

section \<open>Castling\<close>









section \<open>Castling positions\<close>


























section \<open>Search and selection on the legal-move list\<close>

lemma minimax_leaf:
  "depth = 0 \<or> gameState g \<noteq> Ongoing
   \<Longrightarrow> minimax shape c maxDepth g depth alpha beta maximizingPlayer bestMove
       = Some (evaluateBoard g c, bestMove)"
  by (cases depth) auto

lemma minimax_no_moves:
  "gameState g = Ongoing \<Longrightarrow> generateLegalMoves shape g = Some []
   \<Longrightarrow> minimax shape c maxDepth g (Suc d) alpha beta maximizingPlayer bestMove
       = Some (if maximizingPlayer then - 1000000 else 1000000, bestMove)"
  by simp

lemma pick_member: "ms \<noteq> [] \<Longrightarrow> \<exists>m. pick ms r = Inr m \<and> m \<in> set ms"
  by (simp add: pick_def)

lemma preferred_filter:
  "(\<And>m. \<exists>r. test m = Some r)
   \<Longrightarrow> preferred test ms = Some (filter (\<lambda>m. test m = Some True) ms)"
  by (induction ms) (auto split: option.splits)

lemma isCheck_total: "alignedShape shape \<Longrightarrow> \<exists>r. isCheck shape g m = Some r"
  unfolding isCheck_def using isKingInCheckInternal_total by blast

lemma isMoveSafe_total: "alignedShape shape \<Longrightarrow> \<exists>r. isMoveSafe shape g m = Some r"
  unfolding isMoveSafe_def using generateLegalMovesInternal_filter by fastforce

lemma Level1_member:
  assumes "generateLegalMoves shape g = Some ls" "ls \<noteq> []"
  shows "\<exists>m. Level1_getMove shape g r = Some (Inr m) \<and> m \<in> set ls"
  using assms pick_member [of ls r] by (simp add: Level1_getMove_def)

lemma pick_filter_member:
  "filter P ls \<noteq> [] \<Longrightarrow> \<exists>m. pick (filter P ls) r = Inr m \<and> m \<in> set ls"
  using pick_member [of "filter P ls" r] by auto

lemma Level2_member:
  assumes al: "alignedShape shape"
    and ls: "generateLegalMoves shape g = Some ls" "ls \<noteq> []"
  shows "\<exists>m. Level2_getMove shape g r = Some (Inr m) \<and> m \<in> set ls"
proof -
  let ?t = "\<lambda>m. if isCapture g m then Some True else isCheck shape g m"
  have "\<And>m. \<exists>r. ?t m = Some r" using isCheck_total [OF al] by auto
  from preferred_filter [of ?t ls, OF this]
  have p: "preferred ?t ls = Some (filter (\<lambda>m. ?t m = Some True) ls)" .
  show ?thesis
    using pick_member [OF ls(2), of r] pick_filter_member [of "\<lambda>m. ?t m = Some True" ls r]
    by (simp add: Level2_getMove_def ls(1) p)
qed

lemma Level3_member:
  assumes al: "alignedShape shape"
    and ls: "generateLegalMoves shape g = Some ls" "ls \<noteq> []"
  shows "\<exists>m. Level3_getMove shape g r = Some (Inr m) \<and> m \<in> set ls"
proof -
  have p1: "preferred (isCheck shape g) ls
            = Some (filter (\<lambda>m. isCheck shape g m = Some True) ls)"
    by (rule preferred_filter) (rule isCheck_total [OF al])
  have p2: "preferred (\<lambda>m. Some (isCapture g m)) ls
            = Some (filter (\<lambda>m. Some (isCapture g m) = Some True) ls)"
    by (rule preferred_filter) simp
  have p3: "preferred (isMoveSafe shape g) ls
            = Some (filter (\<lambda>m. isMoveSafe shape g m = Some True) ls)"
    by (rule preferred_filter) (rule isMoveSafe_total [OF al])
  show ?thesis
    using pick_member [OF ls(2), of r]
      pick_filter_member [of "\<lambda>m. isCheck shape g m = Some True" ls r]
      pick_filter_member [of "\<lambda>m. Some (isCapture g m) = Some True" ls r]
      pick_filter_member [of "\<lambda>m. isMoveSafe shape g m = Some True" ls r]
    by (simp add: Level3_getMove_def ls(1) p1 p2 p3)
qed


text \<open>
  C6. On an empty legal-move list with the state still \<open>Ongoing\<close> (a stalemate:
  \<^verbatim>\<open>move\<close> calls \<^verbatim>\<open>computeState\<close> and never \<^verbatim>\<open>computeStalemate\<close>),
  \<^verbatim>\<open>Level4::minimax\<close> at a depth above 0 does not return the static evaluation: both
  loops are skipped and it returns the initial bound, -1000000 when maximizing and
  1000000 when minimizing. \<^verbatim>\<open>Level1\<close>, \<^verbatim>\<open>Level2\<close> and \<^verbatim>\<open>Level3\<close> reach
  \<^verbatim>\<open>legalMoves[rand() % legalMoves.size()]\<close> (lines 23, 42 and 83) with the empty list:
  a division by zero and a subscript out of range, \<open>EmptySelection\<close> in the model.
\<close>

theorem empty_legal_moves_not_a_leaf:
  assumes "gameState g = Ongoing" and "generateLegalMoves shape g = Some []"
  shows "minimax shape c maxDepth g (Suc d) alpha beta maximizingPlayer bestMove
           = Some (if maximizingPlayer then - 1000000 else 1000000, bestMove)
       \<and> Level1_getMove shape g r = Some (Inl EmptySelection)
       \<and> Level2_getMove shape g r = Some (Inl EmptySelection)
       \<and> Level3_getMove shape g r = Some (Inl EmptySelection)"
  using assms
  by (simp add: Level1_getMove_def Level2_getMove_def Level3_getMove_def pick_def)


section \<open>A stalemate\<close>


lemma stale_fields:
  "board staleGame = staleBoard" "turn staleGame = White" "moveList staleGame = []"
  "gameState staleGame = Ongoing"
  by (simp_all add: staleGame_def)

text \<open>The white king's pseudo-legal moves are a8-b8, a8-a7 and a8-b7.\<close>

lemma stale_candidates:
  assumes v: "isValidMove chessShape [] White m staleBoard = Some True"
    and c: "color m = White"
  shows "m = Move 0 0 0 1 White \<or> m = Move 0 0 1 0 White \<or> m = Move 0 0 1 1 White"
proof -
  from isValidMove_origin [OF v] obtain p where
    p: "staleBoard (oldRow m, oldCol m) = Some p" "getColor p = White" "chessShape p m"
    by blast
  from isValidMove_within [OF v] have w: "withinBoard (newRow m) (newCol m)" by simp
  have o: "oldRow m = 0 \<and> oldCol m = 0 \<and> p = Piece White King 3"
    using p(1,2) by (auto simp: staleBoard_def emptyBoard_def split: if_splits)
  then have s: "(\<bar>newRow m\<bar> \<le> 1 \<and> \<bar>newCol m\<bar> \<le> 1 \<and> (newRow m \<noteq> 0 \<or> newCol m \<noteq> 0))
              \<or> (newRow m = 0 \<and> \<bar>newCol m\<bar> = 2)"
    using p(3) by (simp add: chessShape_def Let_def)
  have r: "newRow m = 0 \<or> newRow m = 1" using s w by (auto simp: withinBoard_def)
  have l: "newCol m = 0 \<or> newCol m = 1 \<or> newCol m = 2" using s w by (auto simp: withinBoard_def)
  have far: "isValidMove chessShape [] White (Move 0 0 0 2 White) staleBoard = Some False"
    by code_simp
  have m: "m = Move 0 0 (newRow m) (newCol m) White" using o c by (cases m) simp
  have "\<not> (newRow m = 0 \<and> newCol m = 2)"
  proof
    assume "newRow m = 0 \<and> newCol m = 2"
    then have "m = Move 0 0 0 2 White" using m by simp
    then show False using v far by simp
  qed
  then have "(newRow m, newCol m) \<in> {(0, 1), (1, 0), (1, 1)}"
    using r l s by auto
  then show ?thesis using m by (metis insertE prod.inject singletonD)
qed

lemma stale_b8:
  "isKingInCheckInternal chessShape [] White (Board_move staleBoard (Move 0 0 0 1 White))
   = Some True"
proof (rule in_check_by_move [OF alignedShape_chessShape, of _ _ "Move 1 2 0 1 Black"])
  show "isValidMove chessShape [] (opponent White) (Move 1 2 0 1 Black)
          (Board_move staleBoard (Move 0 0 0 1 White)) = Some True"
    by code_simp
  show "(newRow (Move 1 2 0 1 Black), newCol (Move 1 2 0 1 Black))
        = findKing White (Board_move staleBoard (Move 0 0 0 1 White))"
    by code_simp
qed (simp add: opponent_def)

lemma stale_a7:
  "isKingInCheckInternal chessShape [] White (Board_move staleBoard (Move 0 0 1 0 White))
   = Some True"
proof (rule in_check_by_move [OF alignedShape_chessShape, of _ _ "Move 1 2 1 0 Black"])
  show "isValidMove chessShape [] (opponent White) (Move 1 2 1 0 Black)
          (Board_move staleBoard (Move 0 0 1 0 White)) = Some True"
    by code_simp
  show "(newRow (Move 1 2 1 0 Black), newCol (Move 1 2 1 0 Black))
        = findKing White (Board_move staleBoard (Move 0 0 1 0 White))"
    by code_simp
qed (simp add: opponent_def)

lemma stale_b7:
  "isKingInCheckInternal chessShape [] White (Board_move staleBoard (Move 0 0 1 1 White))
   = Some True"
proof (rule in_check_by_move [OF alignedShape_chessShape, of _ _ "Move 1 2 1 1 Black"])
  show "isValidMove chessShape [] (opponent White) (Move 1 2 1 1 Black)
          (Board_move staleBoard (Move 0 0 1 1 White)) = Some True"
    by code_simp
  show "(newRow (Move 1 2 1 1 Black), newCol (Move 1 2 1 1 Black))
        = findKing White (Board_move staleBoard (Move 0 0 1 1 White))"
    by code_simp
qed (simp add: opponent_def)

lemma stale_not_in_check:
  "isKingInCheckInternal chessShape [] White staleBoard = Some False"
proof -
  have k: "findKing White staleBoard = (0, 0)" by code_simp
  show ?thesis
    by (rule not_in_check_by_shape [OF alignedShape_chessShape])
       (simp only: k fst_conv snd_conv,
        auto simp: staleBoard_def emptyBoard_def chessShape_def opponent_def split: if_splits)
qed

lemma stale_no_legal_moves: "generateLegalMoves chessShape staleGame = Some []"
proof -
  { fix m assume a: "m \<in> set (allMoves White)"
      "isValidMove chessShape [] White m staleBoard = Some True"
    from a(1) have c: "color m = White" by (simp add: set_allMoves)
    from stale_candidates [OF a(2) c]
    have "\<not> keptByLoop chessShape staleGame m"
      using stale_b8 stale_a7 stale_b7
      by (auto simp: keptByLoop_def isCastling_def stale_fields) }
  then show ?thesis
    by (simp add: generateLegalMoves_filter [OF alignedShape_chessShape] stale_fields
        filter_empty_conv)
qed

lemma stale_evaluation: "evaluateBoard staleGame White = - 900"
  by code_simp

text \<open>
  In the stalemate position White is not in check and has no legal move: the search
  scores -1000000 where the static evaluation is -900, and the three random levels have
  nothing to select from.
\<close>

theorem empty_legal_moves_not_a_leaf_witness:
  "gameState staleGame = Ongoing
   \<and> kingIsInCheck chessShape staleGame White = Some False
   \<and> generateLegalMoves chessShape staleGame = Some []
   \<and> evaluateBoard staleGame White = - 900
   \<and> minimax chessShape White 1 staleGame 1 (- 1000000) 1000000 True (Move 0 0 0 0 White)
       = Some (- 1000000, Move 0 0 0 0 White)
   \<and> Level1_getMove chessShape staleGame 0 = Some (Inl EmptySelection)
   \<and> Level2_getMove chessShape staleGame 0 = Some (Inl EmptySelection)
   \<and> Level3_getMove chessShape staleGame 0 = Some (Inl EmptySelection)"
proof -
  have s: "gameState staleGame = Ongoing" by (simp add: stale_fields)
  from empty_legal_moves_not_a_leaf [OF s stale_no_legal_moves, of White 1 0 "- 1000000"
      1000000 True "Move 0 0 0 0 White" 0]
  show ?thesis
    using s stale_no_legal_moves stale_evaluation stale_not_in_check
    by (simp add: kingIsInCheck_def stale_fields)
qed


section \<open>The search leaves the live game alone\<close>

lemma copy_move_frame:
  assumes "move_at shape (fst (ChessGame_copy st game)) (snd (ChessGame_copy st game)) m
           = Some (ok, st2, tmp)"
  shows "\<exists>b. st2 = st @ [b]"
  using assms
  by (auto simp: move_at_def ChessGame_copy_def split: option.splits prod.splits)

lemma search_frame:
  "minimax_st shape c maxDepth st game depth alpha beta mx bm = Some r
     \<Longrightarrow> \<exists>fresh. snd (snd r) = st @ fresh"
  "maxLoop_st shape c maxDepth st game d ms maxEval alpha beta bm = Some r
     \<Longrightarrow> \<exists>fresh. snd (snd r) = st @ fresh"
  "minLoop_st shape c maxDepth st game d ms minEval alpha beta bm = Some r
     \<Longrightarrow> \<exists>fresh. snd (snd r) = st @ fresh"
proof (induction shape c maxDepth st game depth alpha beta mx bm
    and shape c maxDepth st game d ms maxEval alpha beta bm
    and shape c maxDepth st game d ms minEval alpha beta bm
    arbitrary: r and r and r
    rule: minimax_st_maxLoop_st_minLoop_st.induct)
  case (1 shape c maxDepth st game alpha beta maximizingPlayer bestMove)
  then show ?case by auto
next
  case (2 shape c maxDepth st game d alpha beta maximizingPlayer bestMove)
  then show ?case
    by (auto split: if_splits option.splits)
next
  case (3 shape c maxDepth st game d maxEval alpha beta bestMove)
  then show ?case by auto
next
  case (4 shape c maxDepth st game d m ms maxEval alpha beta bestMove)
  from "4.prems" obtain ok st2 tmp where
    mv: "move_at shape (fst (ChessGame_copy st game)) (snd (ChessGame_copy st game)) m
         = Some (ok, st2, tmp)"
    by (auto split: option.splits prod.splits)
  from "4.prems" mv obtain eval bm1 st3 where
    mm: "minimax_st shape c maxDepth st2 tmp d alpha beta False bestMove = Some (eval, bm1, st3)"
    by (auto split: option.splits prod.splits)
  from copy_move_frame [OF mv] obtain b where st2: "st2 = st @ [b]" by blast
  from "4.IH"(1) [OF mv refl refl mm] obtain f1 where st3: "st3 = st2 @ f1" by auto
  show ?case
  proof (cases "beta \<le> max alpha eval")
    case True
    then have "snd (snd r) = st3" using "4.prems" mv mm by (auto simp: Let_def)
    then show ?thesis using st2 st3 by simp
  next
    case False
    then have "maxLoop_st shape c maxDepth st3 game d ms (if eval > maxEval then eval else maxEval)
                 (max alpha eval) beta
                 (if eval > maxEval \<and> Suc d = maxDepth then m else bm1) = Some r"
      using "4.prems" mv mm by (auto simp: Let_def)
    from "4.IH"(2) [OF mv refl refl mm refl refl refl refl refl False this]
    obtain f2 where "snd (snd r) = st3 @ f2" by auto
    then show ?thesis using st2 st3 by simp
  qed
next
  case (5 shape c maxDepth st game d minEval alpha beta bestMove)
  then show ?case by auto
next
  case (6 shape c maxDepth st game d m ms minEval alpha beta bestMove)
  from "6.prems" obtain ok st2 tmp where
    mv: "move_at shape (fst (ChessGame_copy st game)) (snd (ChessGame_copy st game)) m
         = Some (ok, st2, tmp)"
    by (auto split: option.splits prod.splits)
  from "6.prems" mv obtain eval bm1 st3 where
    mm: "minimax_st shape c maxDepth st2 tmp d alpha beta True bestMove = Some (eval, bm1, st3)"
    by (auto split: option.splits prod.splits)
  from copy_move_frame [OF mv] obtain b where st2: "st2 = st @ [b]" by blast
  from "6.IH"(1) [OF mv refl refl mm] obtain f1 where st3: "st3 = st2 @ f1" by auto
  show ?case
  proof (cases "min beta eval \<le> alpha")
    case True
    then have "snd (snd r) = st3" using "6.prems" mv mm by (auto simp: Let_def)
    then show ?thesis using st2 st3 by simp
  next
    case False
    then have "minLoop_st shape c maxDepth st3 game d ms (min minEval eval) alpha
                 (min beta eval) bm1 = Some r"
      using "6.prems" mv mm by (auto simp: Let_def)
    from "6.IH"(2) [OF mv refl refl mm refl refl refl refl False this]
    obtain f2 where "snd (snd r) = st3 @ f2" by auto
    then show ?thesis using st2 st3 by simp
  qed
qed

lemma deref_append: "boardPtr game < length st \<Longrightarrow> deref (st @ fresh) game = deref st game"
  by (simp add: deref_def nth_append)

lemma deref_copy:
  "boardPtr game < length st
   \<Longrightarrow> deref (fst (ChessGame_copy st game)) (snd (ChessGame_copy st game)) = deref st game"
  by (simp add: deref_def ChessGame_copy_def nth_append)

lemma move_at_copy:
  assumes "boardPtr game < length st"
  shows "move_at shape (fst (ChessGame_copy st game)) (snd (ChessGame_copy st game)) m
     = (case move shape (deref st game) m of
          None \<Rightarrow> None
        | Some (ok, g') \<Rightarrow>
            Some (ok, st @ [board g'],
                  \<lparr>boardPtr = length st, turnOf = turn g', stateOf = gameState g',
                   movesOf = moveList g'\<rparr>))"
  unfolding move_at_def deref_copy [OF assms]
  by (simp add: ChessGame_copy_def split: option.splits prod.splits)

lemma deref_moved:
  "deref (st @ [board g'])
     \<lparr>boardPtr = length st, turnOf = turn g', stateOf = gameState g', movesOf = moveList g'\<rparr>
   = g'"
  by (simp add: deref_def)

lemma search_refines:
  "boardPtr game < length st \<Longrightarrow>
     map_option dropStore (minimax_st shape c maxDepth st game depth alpha beta mx bm)
     = minimax shape c maxDepth (deref st game) depth alpha beta mx bm"
  "boardPtr game < length st \<Longrightarrow>
     map_option dropStore (maxLoop_st shape c maxDepth st game d ms maxEval alpha beta bm)
     = maxLoop shape c maxDepth (deref st game) d ms maxEval alpha beta bm"
  "boardPtr game < length st \<Longrightarrow>
     map_option dropStore (minLoop_st shape c maxDepth st game d ms minEval alpha beta bm)
     = minLoop shape c maxDepth (deref st game) d ms minEval alpha beta bm"
proof (induction shape c maxDepth st game depth alpha beta mx bm
    and shape c maxDepth st game d ms maxEval alpha beta bm
    and shape c maxDepth st game d ms minEval alpha beta bm
    rule: minimax_st_maxLoop_st_minLoop_st.induct)
  case (1 shape c maxDepth st game alpha beta maximizingPlayer bestMove)
  then show ?case by (simp add: dropStore_def)
next
  case (2 shape c maxDepth st game d alpha beta maximizingPlayer bestMove)
  then show ?case
    by (auto simp: dropStore_def split: option.splits)
next
  case (3 shape c maxDepth st game d maxEval alpha beta bestMove)
  then show ?case by (simp add: dropStore_def)
next
  case (4 shape c maxDepth st game d m ms maxEval alpha beta bestMove)
  note ptr = "4.prems"
  show ?case
  proof (cases "move shape (deref st game) m")
    case None
    then show ?thesis by (simp add: move_at_copy [OF ptr])
  next
    case (Some a)
    obtain ok g' where a: "a = (ok, g')" by (cases a)
    let ?st2 = "st @ [board g']"
    let ?tmp = "\<lparr>boardPtr = length st, turnOf = turn g', stateOf = gameState g',
                  movesOf = moveList g'\<rparr>"
    have mv: "move_at shape (fst (ChessGame_copy st game)) (snd (ChessGame_copy st game)) m
              = Some (ok, ?st2, ?tmp)"
      using Some a by (simp add: move_at_copy [OF ptr])
    have ih1: "map_option dropStore
                 (minimax_st shape c maxDepth ?st2 ?tmp d alpha beta False bestMove)
               = minimax shape c maxDepth g' d alpha beta False bestMove"
      using "4.IH"(1) [OF mv refl refl] by (simp add: deref_moved)
    show ?thesis
    proof (cases "minimax_st shape c maxDepth ?st2 ?tmp d alpha beta False bestMove")
      case None
      then show ?thesis using ih1 Some a mv by simp
    next
      case (Some r)
      obtain eval bm1 st3 where r: "r = (eval, bm1, st3)" by (cases r)
      have v: "minimax shape c maxDepth g' d alpha beta False bestMove = Some (eval, bm1)"
        using ih1 Some r by (simp add: dropStore_def)
      from search_frame(1) [OF Some] obtain f1 where st3: "st3 = ?st2 @ f1"
        using r by auto
      have ptr3: "boardPtr game < length st3" using ptr st3 by simp
      have d3: "deref st3 game = deref st game"
        using deref_append [OF ptr, of "[board g'] @ f1"] st3 by simp
      show ?thesis
      proof (cases "beta \<le> max alpha eval")
        case True
        then show ?thesis
          using mv Some r v \<open>move shape (deref st game) m = Some a\<close> a
          by (simp add: Let_def dropStore_def)
      next
        case False
        from "4.IH"(2) [OF mv refl refl Some [unfolded r] refl refl refl refl refl False ptr3]
        show ?thesis
          using False mv Some r v \<open>move shape (deref st game) m = Some a\<close> a d3
          by (simp add: Let_def)
      qed
    qed
  qed
next
  case (5 shape c maxDepth st game d minEval alpha beta bestMove)
  then show ?case by (simp add: dropStore_def)
next
  case (6 shape c maxDepth st game d m ms minEval alpha beta bestMove)
  note ptr = "6.prems"
  show ?case
  proof (cases "move shape (deref st game) m")
    case None
    then show ?thesis by (simp add: move_at_copy [OF ptr])
  next
    case (Some a)
    obtain ok g' where a: "a = (ok, g')" by (cases a)
    let ?st2 = "st @ [board g']"
    let ?tmp = "\<lparr>boardPtr = length st, turnOf = turn g', stateOf = gameState g',
                  movesOf = moveList g'\<rparr>"
    have mv: "move_at shape (fst (ChessGame_copy st game)) (snd (ChessGame_copy st game)) m
              = Some (ok, ?st2, ?tmp)"
      using Some a by (simp add: move_at_copy [OF ptr])
    have ih1: "map_option dropStore
                 (minimax_st shape c maxDepth ?st2 ?tmp d alpha beta True bestMove)
               = minimax shape c maxDepth g' d alpha beta True bestMove"
      using "6.IH"(1) [OF mv refl refl] by (simp add: deref_moved)
    show ?thesis
    proof (cases "minimax_st shape c maxDepth ?st2 ?tmp d alpha beta True bestMove")
      case None
      then show ?thesis using ih1 Some a mv by simp
    next
      case (Some r)
      obtain eval bm1 st3 where r: "r = (eval, bm1, st3)" by (cases r)
      have v: "minimax shape c maxDepth g' d alpha beta True bestMove = Some (eval, bm1)"
        using ih1 Some r by (simp add: dropStore_def)
      from search_frame(1) [OF Some] obtain f1 where st3: "st3 = ?st2 @ f1"
        using r by auto
      have ptr3: "boardPtr game < length st3" using ptr st3 by simp
      have d3: "deref st3 game = deref st game"
        using deref_append [OF ptr, of "[board g'] @ f1"] st3 by simp
      show ?thesis
      proof (cases "min beta eval \<le> alpha")
        case True
        then show ?thesis
          using mv Some r v \<open>move shape (deref st game) m = Some a\<close> a
          by (simp add: Let_def dropStore_def)
      next
        case False
        from "6.IH"(2) [OF mv refl refl Some [unfolded r] refl refl refl refl False ptr3]
        show ?thesis
          using False mv Some r v \<open>move shape (deref st game) m = Some a\<close> a d3
          by (simp add: Let_def)
      qed
    qed
  qed
qed

lemma moveInternal_total:
  assumes "alignedShape shape"
  shows "\<exists>r. moveInternal shape g m = Some r"
proof -
  obtain v where v: "isValidMove shape (moveList g) (turn g) m (board g) = Some v"
    using isValidMove_total [OF assms] by blast
  obtain r where r: "isKingInCheckInternal shape (moveList g) (turn g) (Board_move (board g) m)
                     = Some r"
    using isKingInCheckInternal_total [OF assms] by blast
  obtain q where q: "castlingInCheck shape (moveList g) (turn g) (board g) m 2 = Some q"
    using castlingInCheck_total [OF assms] by blast
  show ?thesis
    by (cases v; cases r; cases q) (auto simp: moveInternal_def v r q Let_def)
qed

lemma move_total:
  assumes "alignedShape shape"
  shows "\<exists>r. move shape g m = Some r"
proof -
  obtain ok g1 where mi: "moveInternal shape g m = Some (ok, g1)"
    using moveInternal_total [OF assms] by fastforce
  obtain g2 where "computeState shape g1 (opponent (turn g1)) = Some g2"
    using computeState_total [OF assms] by blast
  then show ?thesis by (cases ok) (auto simp: move_def mi)
qed

lemma search_total:
  "alignedShape shape \<Longrightarrow>
     \<exists>r. minimax shape c maxDepth g depth alpha beta mx bm = Some r"
  "alignedShape shape \<Longrightarrow>
     \<exists>r. maxLoop shape c maxDepth g d ms maxEval alpha beta bm = Some r"
  "alignedShape shape \<Longrightarrow>
     \<exists>r. minLoop shape c maxDepth g d ms minEval alpha beta bm = Some r"
proof (induction shape c maxDepth g depth alpha beta mx bm
    and shape c maxDepth g d ms maxEval alpha beta bm
    and shape c maxDepth g d ms minEval alpha beta bm
    rule: minimax_maxLoop_minLoop.induct)
  case (1 shape c maxDepth g alpha beta maximizingPlayer bestMove)
  then show ?case by simp
next
  case (2 shape c maxDepth g d alpha beta maximizingPlayer bestMove)
  obtain ls where ls: "generateLegalMoves shape g = Some ls"
    using generateLegalMoves_filter [OF "2.prems"] by blast
  show ?case
    using "2.IH"(1) [OF _ ls _ "2.prems"] "2.IH"(2) [OF _ ls _ "2.prems"]
    by (auto simp: ls)
next
  case (3 shape c maxDepth g d maxEval alpha beta bestMove)
  then show ?case by simp
next
  case (4 shape c maxDepth g d m ms maxEval alpha beta bestMove)
  obtain ok g' where mv: "move shape g m = Some (ok, g')"
    using move_total [OF "4.prems"] by fastforce
  obtain eval bm1 where mm:
    "minimax shape c maxDepth g' d alpha beta False bestMove = Some (eval, bm1)"
    using "4.IH"(1) [OF mv refl "4.prems"] by fastforce
  show ?case
  proof (cases "beta \<le> max alpha eval")
    case True
    then show ?thesis by (simp add: mv mm Let_def)
  next
    case False
    from "4.IH"(2) [OF mv refl mm refl refl refl refl False "4.prems"]
    show ?thesis using False by (simp add: mv mm Let_def)
  qed
next
  case (5 shape c maxDepth g d minEval alpha beta bestMove)
  then show ?case by simp
next
  case (6 shape c maxDepth g d m ms minEval alpha beta bestMove)
  obtain ok g' where mv: "move shape g m = Some (ok, g')"
    using move_total [OF "6.prems"] by fastforce
  obtain eval bm1 where mm:
    "minimax shape c maxDepth g' d alpha beta True bestMove = Some (eval, bm1)"
    using "6.IH"(1) [OF mv refl "6.prems"] by fastforce
  show ?case
  proof (cases "min beta eval \<le> alpha")
    case True
    then show ?thesis by (simp add: mv mm Let_def)
  next
    case False
    from "6.IH"(2) [OF mv refl mm refl refl refl False "6.prems"]
    show ?thesis using False by (simp add: mv mm Let_def)
  qed
qed


text \<open>
  C9. When \<^verbatim>\<open>Level4::getMove\<close> returns, every board that was in the store before the
  call is what it was: the store has only grown by the boards of the copies. So the game
  the player holds (its board, history, turn and state) is unchanged, and the move
  returned is the move the search computes on the game as a value.
\<close>

theorem search_leaves_game_unchanged:
  assumes "Level4_getMove_st shape c maxDepth st game = Some (best, st')"
    and "boardPtr game < length st"
  shows "(\<exists>fresh. st' = st @ fresh)
       \<and> (\<forall>a < length st. st' ! a = st ! a)
       \<and> deref st' game = deref st game
       \<and> Level4_getMove shape c maxDepth (deref st game) = Some best"
proof -
  from assms(1) obtain e where
    mm: "minimax_st shape c maxDepth st game maxDepth (- 1000000) 1000000 True
           (Move 0 0 0 0 defaultColor) = Some (e, best, st')"
    by (auto simp: Level4_getMove_st_def)
  from search_frame(1) [OF mm] obtain fresh where f: "st' = st @ fresh" by auto
  have "minimax shape c maxDepth (deref st game) maxDepth (- 1000000) 1000000 True
          (Move 0 0 0 0 defaultColor) = Some (e, best)"
    using search_refines(1) [OF assms(2), of shape c maxDepth maxDepth "- 1000000" 1000000
        True "Move 0 0 0 0 defaultColor"] mm
    by (simp add: dropStore_def)
  then have "Level4_getMove shape c maxDepth (deref st game) = Some best"
    by (simp add: Level4_getMove_def)
  then show ?thesis
    using f deref_append [OF assms(2), of fresh] by (auto simp: nth_append)
qed

lemma rook_deref: "deref [rookBoard] rookObject = rookGame"
  by (simp add: deref_def rookObject_def rookGame_def)

theorem search_leaves_game_unchanged_witness:
  "\<exists>best st'. Level4_getMove_st chessShape White 2 [rookBoard] rookObject = Some (best, st')
      \<and> boardPtr rookObject < length [rookBoard]
      \<and> deref st' rookObject = rookGame
      \<and> st' ! 0 = rookBoard"
proof -
  obtain r where r: "minimax chessShape White 2 rookGame 2 (- 1000000) 1000000 True
           (Move 0 0 0 0 defaultColor) = Some r"
    using search_total(1) [OF alignedShape_chessShape] by blast
  have p: "boardPtr rookObject < length [rookBoard]" by (simp add: rookObject_def)
  have "map_option dropStore
          (minimax_st chessShape White 2 [rookBoard] rookObject 2 (- 1000000) 1000000 True
             (Move 0 0 0 0 defaultColor)) = Some r"
    using search_refines(1) [OF p, of chessShape White 2 2 "- 1000000" 1000000 True
        "Move 0 0 0 0 defaultColor"] r
    by (simp add: rook_deref)
  then obtain e best st' where
    "minimax_st chessShape White 2 [rookBoard] rookObject 2 (- 1000000) 1000000 True
             (Move 0 0 0 0 defaultColor) = Some (e, best, st')"
    by (cases "minimax_st chessShape White 2 [rookBoard] rookObject 2 (- 1000000) 1000000 True
             (Move 0 0 0 0 defaultColor)") auto
  then have g: "Level4_getMove_st chessShape White 2 [rookBoard] rookObject = Some (best, st')"
    by (simp add: Level4_getMove_st_def)
  from search_leaves_game_unchanged [OF g p]
  show ?thesis using g p by (auto simp: rook_deref)
qed

end
